theory Spec2Isabelle
  imports Main "HOL-Library.Word"
begin

section \<open>Deadlock graph (pkg/concurrency/deadlock.go)\<close>

text \<open>
  A waits-for graph is the slice of edges, in the order AddEdge appended them. A vertex
  is a pointer to a transaction; only pointer equality is used, so the vertex type is a
  parameter (the fields from and to are named efrom and eto here). The reader/writer latch of the graph is not part of the sequential model.
\<close>

record 'v Edge =
  efrom :: 'v
  eto :: 'v

type_synonym 'v Graph = "'v Edge list"

definition NewGraph :: "'v Graph" where
  "NewGraph = []"

definition AddEdge :: "'v Graph \<Rightarrow> 'v \<Rightarrow> 'v \<Rightarrow> 'v Graph" where
  "AddEdge g f t = g @ [\<lparr>efrom = f, eto = t\<rparr>]"

text \<open>removeEdge: the last element is copied over index i and the slice is shortened.\<close>

definition removeEdge :: "'v Edge list \<Rightarrow> nat \<Rightarrow> 'v Edge list" where
  "removeEdge l i = butlast (l[i := last l])"

fun findEdge :: "'v Edge list \<Rightarrow> 'v Edge \<Rightarrow> nat \<Rightarrow> nat option" where
  "findEdge [] x i = None"
| "findEdge (e # es) x i = (if e = x then Some i else findEdge es x (Suc i))"

datatype graph_error = EdgeNotFound

definition RemoveEdge :: "'v Graph \<Rightarrow> 'v \<Rightarrow> 'v \<Rightarrow> graph_error + 'v Graph" where
  "RemoveEdge g f t =
     (case findEdge g \<lparr>efrom = f, eto = t\<rparr> 0 of
        Some i \<Rightarrow> Inr (removeEdge g i)
      | None \<Rightarrow> Inl EdgeNotFound)"

text \<open>
  dfs: the loop over the edges returns inside its first iteration with e.from == from, so
  only the first out-edge of a vertex is ever followed.
\<close>

fun firstOut :: "'v Edge list \<Rightarrow> 'v \<Rightarrow> 'v Edge option" where
  "firstOut [] v = None"
| "firstOut (e # es) v = (if efrom e = v then Some e else firstOut es v)"

lemma firstOut_Some: "firstOut g v = Some e \<Longrightarrow> e \<in> set g \<and> efrom e = v"
  by (induction g) (auto split: if_splits)

function dfs :: "'v Graph \<Rightarrow> 'v \<Rightarrow> 'v list \<Rightarrow> bool" where
  "dfs g v seen =
     (case firstOut g v of
        None \<Rightarrow> False
      | Some e \<Rightarrow> if eto e \<in> set seen then True else dfs g (eto e) (seen @ [efrom e]))"
  by pat_completeness auto
termination
proof (relation "measure (\<lambda>(g, v, seen).
         2 * card (efrom ` set g - set seen) + (if v \<in> set seen then 1 else 0))")
  show "wf (measure (\<lambda>(g, v, seen).
         2 * card (efrom ` set g - set seen) + (if v \<in> set seen then 1 else 0)))"
    by simp
next
  fix g :: "'v Graph" and v :: 'v and seen :: "'v list" and e :: "'v Edge"
  assume fo: "firstOut g v = Some e" and ns: "eto e \<notin> set seen"
  from firstOut_Some [OF fo] have eg: "e \<in> set g" and fe: "efrom e = v" by simp_all
  show "((g, eto e, seen @ [efrom e]), (g, v, seen)) \<in> measure (\<lambda>(g, v, seen).
         2 * card (efrom ` set g - set seen) + (if v \<in> set seen then 1 else 0))"
  proof (cases "v \<in> set seen")
    case True
    then have "efrom ` set g - set (seen @ [efrom e]) = efrom ` set g - set seen"
      using fe by auto
    then show ?thesis using True ns fe by auto
  next
    case False
    have fin: "finite (efrom ` set g - set seen)" by simp
    have mem: "v \<in> efrom ` set g - set seen" using eg fe False by auto
    have "efrom ` set g - set (seen @ [efrom e]) = (efrom ` set g - set seen) - {v}"
      using fe by auto
    then have "card (efrom ` set g - set (seen @ [efrom e])) = card (efrom ` set g - set seen) - 1"
      using mem fin by simp
    moreover have "card (efrom ` set g - set seen) > 0"
      using mem fin card_gt_0_iff by blast
    ultimately show ?thesis using False by auto
  qed
qed

definition DetectCycle :: "'v Graph \<Rightarrow> bool" where
  "DetectCycle g = (case g of [] \<Rightarrow> False | e # _ \<Rightarrow> dfs g (efrom e) [])"

text \<open>The digraph induced by the edges, and what a directed cycle in it is.\<close>

definition edge_rel :: "'v Graph \<Rightarrow> ('v \<times> 'v) set" where
  "edge_rel g = (\<lambda>e. (efrom e, eto e)) ` set g"

definition has_cycle :: "'v Graph \<Rightarrow> bool" where
  "has_cycle g = (\<exists>v. (v, v) \<in> (edge_rel g)\<^sup>+)"


text \<open>
  Claim C1: DetectCycle returns true if and only if the digraph induced by the edges has
  a directed cycle, the search exploring every out-edge of each visited vertex.
  The code does not: for the edges 1 \<rightarrow> 2, 1 \<rightarrow> 3, 3 \<rightarrow> 1 (added in this order) the search
  starts at vertex 1, follows the first out-edge 1 \<rightarrow> 2 only, finds no edge out of 2 and
  answers false, although 1 \<rightarrow> 3 \<rightarrow> 1 is a cycle.
\<close>

theorem DetectCycle_misses_cycle:
  "\<not> DetectCycle (AddEdge (AddEdge (AddEdge NewGraph (1::nat) 2) 1 3) 3 1)
   \<and> has_cycle (AddEdge (AddEdge (AddEdge NewGraph (1::nat) 2) 1 3) 3 1)"
proof -
  let ?g = "AddEdge (AddEdge (AddEdge NewGraph (1::nat) 2) 1 3) 3 1"
  have g: "?g = [\<lparr>efrom = 1, eto = 2\<rparr>, \<lparr>efrom = 1, eto = 3\<rparr>, \<lparr>efrom = 3, eto = 1\<rparr>]"
    by (simp add: AddEdge_def NewGraph_def)
  have "\<not> DetectCycle ?g"
    unfolding g by (simp add: DetectCycle_def)
  moreover have "(1::nat, 3) \<in> edge_rel ?g" "(3::nat, 1) \<in> edge_rel ?g"
    unfolding g by (simp_all add: edge_rel_def)
  then have "(1::nat, 1) \<in> (edge_rel ?g)\<^sup>+"
    by (meson trancl.intros)
  then have "has_cycle ?g" unfolding has_cycle_def by blast
  ultimately show ?thesis by simp
qed


section \<open>Mutexes of Go's sync package, in a sequential model\<close>

text \<open>
  The calls of one goroutine are modelled as state transformers. A call either returns
  (\<open>Next\<close>), never returns because it waits for a lock that no step of this goroutine
  will release (\<open>Blocks\<close>), or stops the program with a fatal error (\<open>Fatal\<close>, as Go does
  when an unlocked mutex is unlocked). sync.Mutex and sync.RWMutex are not code of the
  repository; their state is a flag, respectively a count of readers and a writer flag.
\<close>

datatype 'a step = Next 'a | Blocks | Fatal

definition step_bind :: "'a step \<Rightarrow> ('a \<Rightarrow> 'b step) \<Rightarrow> 'b step" where
  "step_bind m f = (case m of Next x \<Rightarrow> f x | Blocks \<Rightarrow> Blocks | Fatal \<Rightarrow> Fatal)"

definition Mutex_Lock :: "bool \<Rightarrow> bool step" where
  "Mutex_Lock held = (if held then Blocks else Next True)"

definition Mutex_Unlock :: "bool \<Rightarrow> bool step" where
  "Mutex_Unlock held = (if held then Next False else Fatal)"

record RWMutex =
  readers :: nat
  writer :: bool

definition newRWMutex :: RWMutex where
  "newRWMutex = \<lparr>readers = 0, writer = False\<rparr>"

definition RWMutex_RLock :: "RWMutex \<Rightarrow> RWMutex step" where
  "RWMutex_RLock m = (if writer m then Blocks else Next (m\<lparr>readers := readers m + 1\<rparr>))"

definition RWMutex_RUnlock :: "RWMutex \<Rightarrow> RWMutex step" where
  "RWMutex_RUnlock m = (if readers m = 0 then Fatal else Next (m\<lparr>readers := readers m - 1\<rparr>))"

definition RWMutex_Lock :: "RWMutex \<Rightarrow> RWMutex step" where
  "RWMutex_Lock m = (if writer m \<or> 0 < readers m then Blocks else Next (m\<lparr>writer := True\<rparr>))"

definition RWMutex_Unlock :: "RWMutex \<Rightarrow> RWMutex step" where
  "RWMutex_Unlock m = (if writer m then Next (m\<lparr>writer := False\<rparr>) else Fatal)"

section \<open>Lock manager (pkg/concurrency/lock.go)\<close>

datatype LockType = R_LOCK | W_LOCK

record Resource =
  tableName :: string
  resourceKey :: int

record LockManager =
  lmMtx :: bool
  locks :: "Resource \<rightharpoonup> RWMutex"

datatype conc_error = NonexistentResource | CannotUpgrade | GraphHasCycle | AlreadyBegan

definition NewLockManager :: LockManager where
  "NewLockManager = \<lparr>lmMtx = False, locks = Map.empty\<rparr>"

definition lockAs :: "LockType \<Rightarrow> RWMutex \<Rightarrow> RWMutex step" where
  "lockAs lType l = (case lType of R_LOCK \<Rightarrow> RWMutex_RLock l | W_LOCK \<Rightarrow> RWMutex_Lock l)"

definition unlockAs :: "LockType \<Rightarrow> RWMutex \<Rightarrow> RWMutex step" where
  "unlockAs lType l = (case lType of R_LOCK \<Rightarrow> RWMutex_RUnlock l | W_LOCK \<Rightarrow> RWMutex_Unlock l)"

text \<open>LockManager.Lock: the map mutex is released before the resource's lock is taken.\<close>

definition LM_Lock :: "LockManager \<Rightarrow> Resource \<Rightarrow> LockType \<Rightarrow> (conc_error option \<times> LockManager) step" where
  "LM_Lock lm r lType =
     step_bind (Mutex_Lock (lmMtx lm)) (\<lambda>m1.
       let lock = (case locks lm r of None \<Rightarrow> newRWMutex | Some l \<Rightarrow> l);
           lm1 = lm\<lparr>lmMtx := m1, locks := (locks lm)(r \<mapsto> lock)\<rparr>
       in step_bind (Mutex_Unlock (lmMtx lm1)) (\<lambda>m2.
            step_bind (lockAs lType lock) (\<lambda>lock'.
              Next (None, lm1\<lparr>lmMtx := m2, locks := (locks lm1)(r \<mapsto> lock')\<rparr>))))"

text \<open>
  LockManager.Unlock: when the resource is not in the map the function returns its error
  from inside the critical section; there is no deferred unlock.
\<close>

definition LM_Unlock :: "LockManager \<Rightarrow> Resource \<Rightarrow> LockType \<Rightarrow> (conc_error option \<times> LockManager) step" where
  "LM_Unlock lm r lType =
     step_bind (Mutex_Lock (lmMtx lm)) (\<lambda>m1.
       let lm1 = lm\<lparr>lmMtx := m1\<rparr> in
       case locks lm1 r of
         None \<Rightarrow> Next (Some NonexistentResource, lm1)
       | Some lock \<Rightarrow>
           step_bind (Mutex_Unlock (lmMtx lm1)) (\<lambda>m2.
             step_bind (unlockAs lType lock) (\<lambda>lock'.
               Next (None, lm1\<lparr>lmMtx := m2, locks := (locks lm1)(r \<mapsto> lock')\<rparr>))))"

section \<open>Transaction manager (pkg/concurrency/transaction.go)\<close>

text \<open>
  A client id is a uuid.UUID, an array of 16 bytes. The map of transactions is kept as
  an association list: discoverTransactions ranges over the map, and Go leaves the order
  of that iteration open, so the list order stands for one possible order. A vertex of
  the waits-for graph is the transaction's pointer, which the client id identifies.
\<close>

type_synonym UUID = "128 word"

record Transaction =
  clientId :: UUID
  resources :: "Resource \<rightharpoonup> LockType"
  lock :: RWMutex

record TransactionManager =
  lm :: LockManager
  tmMtx :: RWMutex
  pGraph :: "UUID Graph"
  transactions :: "(UUID \<times> Transaction) list"

definition NewTransactionManager :: "LockManager \<Rightarrow> TransactionManager" where
  "NewTransactionManager l =
     \<lparr>lm = l, tmMtx = newRWMutex, pGraph = NewGraph, transactions = []\<rparr>"

definition putTransaction :: "Transaction \<Rightarrow> (UUID \<times> Transaction) list \<Rightarrow> (UUID \<times> Transaction) list" where
  "putTransaction t ts = map (\<lambda>(c, u). if c = clientId t then (c, t) else (c, u)) ts"

definition GetTransaction :: "TransactionManager \<Rightarrow> UUID \<Rightarrow> (Transaction option \<times> TransactionManager) step" where
  "GetTransaction tm cid =
     step_bind (RWMutex_RLock (tmMtx tm)) (\<lambda>m1.
       step_bind (RWMutex_RUnlock m1) (\<lambda>m2.
         Next (map_of (transactions tm) cid, tm\<lparr>tmMtx := m2\<rparr>)))"

definition Begin :: "TransactionManager \<Rightarrow> UUID \<Rightarrow> (conc_error option \<times> TransactionManager) step" where
  "Begin tm cid =
     step_bind (RWMutex_Lock (tmMtx tm)) (\<lambda>m1.
       step_bind (RWMutex_Unlock m1) (\<lambda>m2.
         case map_of (transactions tm) cid of
           Some _ \<Rightarrow> Next (Some AlreadyBegan, tm\<lparr>tmMtx := m2\<rparr>)
         | None \<Rightarrow>
             Next (None, tm\<lparr>tmMtx := m2,
               transactions := transactions tm @
                 [(cid, \<lparr>clientId = cid, resources = Map.empty, lock = newRWMutex\<rparr>)]\<rparr>)))"

text \<open>
  discoverTransactions read-locks and releases every transaction in turn; it waits for
  ever when one of them is write-locked.
\<close>

definition conflicts :: "Resource \<Rightarrow> LockType \<Rightarrow> Transaction \<Rightarrow> bool" where
  "conflicts r lType t =
     (case resources t r of
        None \<Rightarrow> False
      | Some storedType \<Rightarrow> storedType = W_LOCK \<or> lType = W_LOCK)"

fun discoverTransactions :: "(UUID \<times> Transaction) list \<Rightarrow> Resource \<Rightarrow> LockType \<Rightarrow> Transaction list step" where
  "discoverTransactions [] r lType = Next []"
| "discoverTransactions ((c, t) # ts) r lType =
     step_bind (RWMutex_RLock (lock t)) (\<lambda>l1.
       step_bind (RWMutex_RUnlock l1) (\<lambda>l2.
         step_bind (discoverTransactions ts r lType) (\<lambda>rest.
           Next (if conflicts r lType t then t # rest else rest))))"

text \<open>The deferred RemoveEdge calls run last-in first-out; their errors are dropped.\<close>

fun removeEdges :: "UUID Graph \<Rightarrow> UUID \<Rightarrow> Transaction list \<Rightarrow> UUID Graph" where
  "removeEdges g f [] = g"
| "removeEdges g f (ct # cts) =
     (case RemoveEdge g f (clientId ct) of Inl _ \<Rightarrow> removeEdges g f cts | Inr g' \<Rightarrow> removeEdges g' f cts)"

text \<open>
  TransactionManager.Lock, in three parts: the branch taken when the transaction already
  holds the resource, the branch taken when it does not, and the function itself. When
  no transaction is found the function returns nil with its read lock on tmMtx still
  held (the deferred GetTransaction unlock pairs with GetTransaction's own lock).
\<close>

definition TM_Lock_held :: "TransactionManager \<Rightarrow> Transaction \<Rightarrow> RWMutex \<Rightarrow> LockType \<Rightarrow> LockType
    \<Rightarrow> (conc_error option \<times> TransactionManager) step" where
  "TM_Lock_held tm1 t tl1 oldLockType lType =
     step_bind (RWMutex_RUnlock tl1) (\<lambda>tl2.
     step_bind (RWMutex_RUnlock (tmMtx tm1)) (\<lambda>m2.
       let tm2 = tm1\<lparr>tmMtx := m2,
             transactions := putTransaction (t\<lparr>lock := tl2\<rparr>) (transactions tm1)\<rparr>
       in if oldLockType = lType \<or> (oldLockType = W_LOCK \<and> lType = R_LOCK)
          then Next (None, tm2)
          else if oldLockType = R_LOCK \<and> lType = W_LOCK
          then Next (Some CannotUpgrade, tm2)
          else Next (None, tm2)))"

definition TM_Lock_new :: "TransactionManager \<Rightarrow> Transaction \<Rightarrow> RWMutex \<Rightarrow> Resource \<Rightarrow> LockType
    \<Rightarrow> (conc_error option \<times> TransactionManager) step" where
  "TM_Lock_new tm1 t tl1 r lType =
     step_bind (discoverTransactions
         (putTransaction (t\<lparr>lock := tl1\<rparr>) (transactions tm1)) r lType) (\<lambda>conflictT.
       let g1 = fold (\<lambda>ct g. AddEdge g (clientId t) (clientId ct)) conflictT (pGraph tm1);
           hasCycle = DetectCycle g1;
           g2 = removeEdges g1 (clientId t) (rev conflictT)
       in
       step_bind (RWMutex_RUnlock (tmMtx tm1)) (\<lambda>m2.
       step_bind (RWMutex_RUnlock tl1) (\<lambda>tl2.
         if hasCycle
         then Next (Some GraphHasCycle, tm1\<lparr>tmMtx := m2, pGraph := g2,
                transactions := putTransaction (t\<lparr>lock := tl2\<rparr>) (transactions tm1)\<rparr>)
         else
           step_bind (LM_Lock (lm tm1) r lType) (\<lambda>(err, lm1).
           step_bind (RWMutex_Lock tl2) (\<lambda>tl3.
           step_bind (RWMutex_Unlock tl3) (\<lambda>tl4.
             Next (err, tm1\<lparr>lm := lm1, tmMtx := m2, pGraph := g2,
               transactions :=
                 putTransaction (t\<lparr>lock := tl4, resources := (resources t)(r \<mapsto> lType)\<rparr>)
                   (transactions tm1)\<rparr>)))))))"

definition TM_Lock :: "TransactionManager \<Rightarrow> UUID \<Rightarrow> string \<Rightarrow> int \<Rightarrow> LockType
    \<Rightarrow> (conc_error option \<times> TransactionManager) step" where
  "TM_Lock tm cid tblName key lType =
     step_bind (RWMutex_RLock (tmMtx tm)) (\<lambda>m0.
     step_bind (GetTransaction (tm\<lparr>tmMtx := m0\<rparr>) cid) (\<lambda>(found, tm1).
       case found of
         None \<Rightarrow> Next (None, tm1)
       | Some t \<Rightarrow>
           step_bind (RWMutex_RLock (lock t)) (\<lambda>tl1.
             let r = \<lparr>tableName = tblName, resourceKey = key\<rparr> in
             case resources t r of
               Some oldLockType \<Rightarrow> TM_Lock_held tm1 t tl1 oldLockType lType
             | None \<Rightarrow> TM_Lock_new tm1 t tl1 r lType)))"

text \<open>TransactionManager.Unlock: the read lock on tmMtx is released by a defer.\<close>

definition TM_Unlock :: "TransactionManager \<Rightarrow> UUID \<Rightarrow> string \<Rightarrow> int \<Rightarrow> LockType
    \<Rightarrow> (conc_error option \<times> TransactionManager) step" where
  "TM_Unlock tm cid tblName key lType =
     step_bind (RWMutex_RLock (tmMtx tm)) (\<lambda>m0.
     step_bind (GetTransaction (tm\<lparr>tmMtx := m0\<rparr>) cid) (\<lambda>(found, tm1).
       case found of
         None \<Rightarrow> step_bind (RWMutex_RUnlock (tmMtx tm1)) (\<lambda>m1. Next (None, tm1\<lparr>tmMtx := m1\<rparr>))
       | Some t \<Rightarrow>
           let r = \<lparr>tableName = tblName, resourceKey = key\<rparr> in
           step_bind (RWMutex_Lock (lock t)) (\<lambda>tl1.
           step_bind (LM_Unlock (lm tm1) r lType) (\<lambda>(err, lm1).
           step_bind (RWMutex_Unlock tl1) (\<lambda>tl2.
           step_bind (RWMutex_RUnlock (tmMtx tm1)) (\<lambda>m1.
             Next (err, tm1\<lparr>lm := lm1, tmMtx := m1,
               transactions :=
                 putTransaction (t\<lparr>lock := tl2, resources := (resources t)(r := None)\<rparr>)
                   (transactions tm1)\<rparr>)))))))"


text \<open>
  Claim C10: every LockManager.Lock and LockManager.Unlock call releases lmMtx before it
  returns, in particular Unlock of a resource that was never locked.
  The code does not on that very path: Unlock on a fresh lock manager returns the
  nonexistent-resource error with lmMtx still locked, and the next Lock call of the same
  goroutine on any resource waits for lmMtx for ever.
\<close>

theorem LM_Unlock_nonexistent_keeps_lmMtx:
  "LM_Unlock NewLockManager r lType =
     Next (Some NonexistentResource, NewLockManager\<lparr>lmMtx := True\<rparr>)
   \<and> lmMtx (NewLockManager\<lparr>lmMtx := True\<rparr>)
   \<and> LM_Lock (NewLockManager\<lparr>lmMtx := True\<rparr>) r' lType' = Blocks"
  by (simp add: LM_Unlock_def LM_Lock_def NewLockManager_def step_bind_def Mutex_Lock_def)

text \<open>
  Claim C9: TransactionManager.Lock and TransactionManager.Unlock, called with a client
  id that has no active transaction, return nil at once: no error, no lock of the lock
  manager taken or released, no change to the transactions or to the graph.
  Stated for a manager whose tmMtx is not write-locked (no Begin or Commit is running,
  so the calls do not wait). Unlock leaves the whole manager as it was; Lock changes
  tmMtx only, whose count of readers it leaves one higher.
\<close>

theorem TM_Lock_Unlock_no_transaction:
  assumes "map_of (transactions tm) cid = None" and "\<not> writer (tmMtx tm)"
  shows "TM_Lock tm cid tbl key lType =
           Next (None, tm\<lparr>tmMtx := (tmMtx tm)\<lparr>readers := Suc (readers (tmMtx tm))\<rparr>\<rparr>)
       \<and> TM_Unlock tm cid tbl key lType = Next (None, tm)"
  using assms
  by (simp add: TM_Lock_def TM_Unlock_def GetTransaction_def step_bind_def
        RWMutex_RLock_def RWMutex_RUnlock_def)

theorem TM_Lock_Unlock_no_transaction_witness:
  "TM_Lock (NewTransactionManager NewLockManager) 7 ''accounts'' 3 W_LOCK =
     Next (None, (NewTransactionManager NewLockManager)\<lparr>tmMtx := \<lparr>readers = 1, writer = False\<rparr>\<rparr>)
   \<and> TM_Unlock (NewTransactionManager NewLockManager) 7 ''accounts'' 3 W_LOCK =
     Next (None, NewTransactionManager NewLockManager)"
  using TM_Lock_Unlock_no_transaction [of "NewTransactionManager NewLockManager" 7 "''accounts''" 3 W_LOCK]
  by (simp add: NewTransactionManager_def newRWMutex_def)


section \<open>Pager (package pager: Pager and Page)\<close>



record 'd Page =
  pagenum :: int
  pinCount :: int
  dirty :: bool
  data :: 'd

datatype ListId = FreeList | UnpinnedList | PinnedList

datatype 'd read_result = ReadOk 'd | ReadEOF | ReadErr

datatype pager_error = InvalidPagenum | NoAvailablePages | DiskReadError

record 'd Pager =
  pfile :: "(int \<Rightarrow> 'd read_result) option"
  nPages :: int
  freeList :: "nat list"
  unpinnedList :: "nat list"
  pinnedList :: "nat list"
  pageTable :: "int \<rightharpoonup> ListId \<times> nat"
  frames :: "nat \<Rightarrow> 'd Page"



definition GetFreePN :: "'d Pager \<Rightarrow> int" where
  "GetFreePN p = nPages p"








subsection \<open>What GetPage does\<close>




















section \<open>Pages as the indexes see them\<close>

text \<open>
  The two indexes are modelled over the pages that Pager.GetPage hands out, not over the
  frames: \<open>sContent s pn\<close> is the content of page pn (for a page number that was never
  allocated, whatever the frame it will get holds), \<open>sPages\<close> is Pager.nPages, and \<open>sFree\<close>
  counts the frames that can still be pinned. The index code never fetches a page that it
  holds pinned already, so every GetPage takes one frame until the matching Put; with all
  frames pinned GetPage fails with the no-available-pages error. Tables are always opened
  on a file, and reads and writes of the file are taken to succeed. Keys and values are
  int64 in the source; nothing is ever computed from them but equality, order and the
  hash, and they are integers here. Page latches are taken and released within each
  operation and are not part of the sequential model.
\<close>

type_synonym Entry = "int \<times> int"

definition GetKey :: "Entry \<Rightarrow> int" where
  "GetKey e = fst e"

definition GetValue :: "Entry \<Rightarrow> int" where
  "GetValue e = snd e"

record 'c PageStore =
  sPages :: int
  sContent :: "int \<Rightarrow> 'c"
  sFree :: nat

definition sGetPage :: "'c PageStore \<Rightarrow> int \<Rightarrow> pager_error + 'c PageStore" where
  "sGetPage s pn =
     (if pn < 0 then Inl InvalidPagenum
      else if sFree s = 0 then Inl NoAvailablePages
      else Inr (s\<lparr>sFree := sFree s - 1,
                  sPages := (if sPages s \<le> pn then sPages s + 1 else sPages s)\<rparr>))"

definition sPut :: "'c PageStore \<Rightarrow> 'c PageStore" where
  "sPut s = s\<lparr>sFree := sFree s + 1\<rparr>"

definition sUpdate :: "'c PageStore \<Rightarrow> int \<Rightarrow> 'c \<Rightarrow> 'c PageStore" where
  "sUpdate s pn c = s\<lparr>sContent := (sContent s)(pn := c)\<rparr>"

definition PAGESIZE :: nat where
  "PAGESIZE = 4096"

definition MaxVarintLen64 :: nat where
  "MaxVarintLen64 = 10"

section \<open>Extendible hash index (package hash)\<close>

text \<open>
  A bucket is its page: the local depth, the number of keys and the cells. A cell index
  that does not fit the page (BUCKETSIZE and above) is never read or written by the
  functions below; where the source would do so the model answers PageOverflow.
  Hasher takes the hash function as a parameter: \<open>xx key\<close> stands for the absolute value,
  as getHash computes it, of xxhash.Sum64 of the key's varint encoding; powInt(2, depth)
  is \<open>2 ^ depth\<close>. The table's field depth is named gdepth here.
\<close>

definition BUCKET_HEADER_SIZE :: nat where
  "BUCKET_HEADER_SIZE = MaxVarintLen64 + MaxVarintLen64"

definition HASH_ENTRYSIZE :: nat where
  "HASH_ENTRYSIZE = MaxVarintLen64 * 2"

definition BUCKETSIZE :: nat where
  "BUCKETSIZE = (PAGESIZE - BUCKET_HEADER_SIZE) div HASH_ENTRYSIZE"

definition Hasher :: "(int \<Rightarrow> nat) \<Rightarrow> int \<Rightarrow> nat \<Rightarrow> nat" where
  "Hasher xx key d = xx key mod 2 ^ d"

record HashBucket =
  depth :: nat
  numKeys :: nat
  cells :: "nat \<Rightarrow> Entry"

datatype hash_error =
  NotFound | UpdateKeyNotFound | DeleteKeyNotFound | PagerError pager_error
  | IndexOutOfRange | NilBucket | PageOverflow

record HashTable =
  gdepth :: nat
  buckets :: "int list"
  pager :: "HashBucket PageStore"

definition getCell :: "HashBucket \<Rightarrow> nat \<Rightarrow> Entry" where
  "getCell b i = cells b i"

definition modifyCell :: "HashBucket \<Rightarrow> nat \<Rightarrow> Entry \<Rightarrow> HashBucket" where
  "modifyCell b i e = b\<lparr>cells := (cells b)(i := e)\<rparr>"

definition getKeyAt :: "HashBucket \<Rightarrow> nat \<Rightarrow> int" where
  "getKeyAt b i = GetKey (getCell b i)"


definition updateDepth :: "HashBucket \<Rightarrow> nat \<Rightarrow> HashBucket" where
  "updateDepth b d = b\<lparr>depth := d\<rparr>"

definition updateNumKeys :: "HashBucket \<Rightarrow> nat \<Rightarrow> HashBucket" where
  "updateNumKeys b n = b\<lparr>numKeys := n\<rparr>"

text \<open>The linear scans of HashBucket.Find, Update and Delete: the first index holding the key.\<close>

fun findIndex :: "HashBucket \<Rightarrow> int \<Rightarrow> nat \<Rightarrow> nat \<Rightarrow> nat option" where
  "findIndex b key i 0 = None"
| "findIndex b key i (Suc n) = (if getKeyAt b i = key then Some i else findIndex b key (Suc i) n)"

definition bucket_Find :: "HashBucket \<Rightarrow> int \<Rightarrow> Entry option" where
  "bucket_Find b key =
     (case findIndex b key 0 (numKeys b) of None \<Rightarrow> None | Some i \<Rightarrow> Some (getCell b i))"

definition bucket_Insert :: "HashBucket \<Rightarrow> int \<Rightarrow> int \<Rightarrow> hash_error + bool \<times> HashBucket" where
  "bucket_Insert b key v =
     (if BUCKETSIZE \<le> numKeys b then Inl PageOverflow
      else let b1 = updateNumKeys (modifyCell b (numKeys b) (key, v)) (numKeys b + 1)
           in Inr (BUCKETSIZE \<le> numKeys b1, b1))"




text \<open>
  NewHashBucket: the page after the last one is fetched, which allocates it, and the depth
  is written; the other bytes of the page are whatever the frame held. The second
  component is the new page's number.
\<close>

definition NewHashBucket :: "HashBucket PageStore \<Rightarrow> nat \<Rightarrow> pager_error + int \<times> HashBucket PageStore" where
  "NewHashBucket s d =
     (let newPN = sPages s in
      case sGetPage s newPN of
        Inl e \<Rightarrow> Inl e
      | Inr s1 \<Rightarrow> Inr (newPN, sUpdate s1 newPN (updateDepth (sContent s1 newPN) d)))"



definition ExtendTable :: "HashTable \<Rightarrow> HashTable" where
  "ExtendTable t = t\<lparr>gdepth := gdepth t + 1, buckets := buckets t @ buckets t\<rparr>"


text \<open>
  HashTable.Split, in three parts: splitPrepare, splitOnce and the recursion. The bucket
  is named by the number of its page, which is an allocated page, so that the new page is
  another one. moveEntries is the loop over tmpEntries; rewire is the loop over the
  directory, where a write past the end of the slice is the panic of the source
  (\<open>None\<close>; the table returned with that error is of no account). The deferred Put of the
  new page runs when the function returns, after the recursive call.
\<close>

fun moveEntries :: "(int \<Rightarrow> nat) \<Rightarrow> nat \<Rightarrow> Entry list \<Rightarrow> HashBucket \<Rightarrow> HashBucket \<Rightarrow> nat \<Rightarrow> nat
    \<Rightarrow> HashBucket \<times> HashBucket \<times> nat \<times> nat" where
  "moveEntries xx newHash [] bucket newBucket oldNKeys newNKeys =
     (bucket, newBucket, oldNKeys, newNKeys)"
| "moveEntries xx newHash (entry # es) bucket newBucket oldNKeys newNKeys =
     (if Hasher xx (GetKey entry) (depth bucket) = newHash
      then moveEntries xx newHash es bucket (modifyCell newBucket newNKeys entry)
             oldNKeys (newNKeys + 1)
      else moveEntries xx newHash es (modifyCell bucket oldNKeys entry) newBucket
             (oldNKeys + 1) newNKeys)"

function rewire :: "int list \<Rightarrow> nat \<Rightarrow> nat \<Rightarrow> nat \<Rightarrow> int \<Rightarrow> int list option" where
  "rewire bs i lim pw pn =
     (if i < lim
      then (if i < length bs then rewire (bs[i := pn]) (i + 2 ^ pw) lim pw pn else None)
      else Some bs)"
  by pat_completeness auto
termination
  by (relation "measure (\<lambda>(bs, i, lim, pw, pn). lim - i)") (auto intro!: diff_less_mono2)

declare rewire.simps [simp del]

lemma NewHashBucket_sFree:
  "NewHashBucket s d = Inr (pn, s') \<Longrightarrow> sFree s' < sFree s"
  by (auto simp add: NewHashBucket_def sGetPage_def sUpdate_def Let_def split: if_splits)

definition putPage :: "HashTable \<Rightarrow> HashTable" where
  "putPage t = t\<lparr>pager := sPut (pager t)\<rparr>"

text \<open>splitPrepare: the directory is doubled if need be and the bucket's depth goes up by one.\<close>

definition splitPrepare :: "HashTable \<Rightarrow> int \<Rightarrow> HashTable" where
  "splitPrepare t bpn =
     (let bucket = sContent (pager t) bpn;
          t1 = (if depth bucket = gdepth t then ExtendTable t else t)
      in t1\<lparr>pager := sUpdate (pager t1) bpn (updateDepth bucket (depth bucket + 1))\<rparr>)"

text \<open>
  splitOnce: the body of Split from there to the end of the directory loop. It answers
  the table, the number of the new page and the two counts oldNKeys and newNKeys.
\<close>

definition splitOnce :: "(int \<Rightarrow> nat) \<Rightarrow> HashTable \<Rightarrow> int \<Rightarrow> nat
    \<Rightarrow> hash_error + HashTable \<times> int \<times> nat \<times> nat" where
  "splitOnce xx t bpn newHash =
     (let t1 = splitPrepare t bpn;
          bucket1 = sContent (pager t1) bpn
      in (case NewHashBucket (pager t1) (depth bucket1) of
            Inl e \<Rightarrow> Inl (PagerError e)
          | Inr (npn, s2) \<Rightarrow>
             (case moveEntries xx newHash (map (getCell bucket1) [0..<numKeys bucket1])
                     bucket1 (sContent s2 npn) 0 0 of
                (bucket2, newBucket2, oldNKeys, newNKeys) \<Rightarrow>
                  (let s3 = sUpdate (sUpdate s2 bpn (updateNumKeys bucket2 oldNKeys))
                              npn (updateNumKeys newBucket2 newNKeys);
                       pw = depth bucket2
                   in (case rewire (buckets t1) newHash (2 ^ gdepth t1) pw npn of
                         None \<Rightarrow> Inl IndexOutOfRange
                       | Some bs \<Rightarrow> Inr (t1\<lparr>buckets := bs, pager := s3\<rparr>, npn, oldNKeys, newNKeys))))))"

lemma splitOnce_sFree:
  assumes "splitOnce xx t bpn newHash = Inr (t3, npn, oldNKeys, newNKeys)"
  shows "sFree (pager t3) < sFree (pager t)"
proof -
  obtain s2 where n: "NewHashBucket (pager (splitPrepare t bpn))
      (depth (sContent (pager (splitPrepare t bpn)) bpn)) = Inr (npn, s2)"
    and f: "sFree (pager t3) = sFree s2"
    using assms
    by (auto simp add: splitOnce_def Let_def sUpdate_def
        split: sum.splits prod.splits option.splits)
  have "sFree (pager (splitPrepare t bpn)) = sFree (pager t)"
    by (simp add: splitPrepare_def Let_def sUpdate_def ExtendTable_def)
  with NewHashBucket_sFree [OF n] f show ?thesis by simp
qed

function Split :: "(int \<Rightarrow> nat) \<Rightarrow> HashTable \<Rightarrow> int \<Rightarrow> nat \<Rightarrow> hash_error option \<times> HashTable" where
  "Split xx t bpn hash =
     (let bucket = sContent (pager t) bpn;
          oldHash = hash mod 2 ^ depth bucket;
          newHash = oldHash + 2 ^ depth bucket
      in (case splitOnce xx t bpn newHash of
            Inl e \<Rightarrow> (Some e, splitPrepare t bpn)
          | Inr (t3, npn, oldNKeys, newNKeys) \<Rightarrow>
              if BUCKETSIZE \<le> oldNKeys
              then (case Split xx t3 bpn oldHash of (r, t4) \<Rightarrow> (r, putPage t4))
              else if BUCKETSIZE \<le> newNKeys
              then (case Split xx t3 npn newHash of (r, t4) \<Rightarrow> (r, putPage t4))
              else (None, putPage t3)))"
  by pat_completeness auto
termination
proof (relation "measure (\<lambda>(xx, t, bpn, hash). sFree (pager t))")
  show "wf (measure (\<lambda>(xx, t, bpn, hash). sFree (pager t)))" by simp
qed (auto dest: splitOnce_sFree)

declare Split.simps [simp del]

text \<open>
  GetBucket pins the page of the slot. Find and Insert defer the unlock of the bucket
  before they look at the error, so a pager error ends in the nil-pointer panic
  (NilBucket); Delete returns the error.
\<close>

definition GetBucket :: "HashTable \<Rightarrow> nat \<Rightarrow> hash_error + int \<times> HashTable" where
  "GetBucket t hash =
     (if hash < length (buckets t)
      then (case sGetPage (pager t) (buckets t ! hash) of
              Inl e \<Rightarrow> Inl (PagerError e)
            | Inr s1 \<Rightarrow> Inr (buckets t ! hash, t\<lparr>pager := s1\<rparr>))
      else Inl IndexOutOfRange)"

definition nilBucketPanic :: "hash_error \<Rightarrow> hash_error" where
  "nilBucketPanic e = (case e of PagerError _ \<Rightarrow> NilBucket | _ \<Rightarrow> e)"

definition hash_Find :: "(int \<Rightarrow> nat) \<Rightarrow> HashTable \<Rightarrow> int \<Rightarrow> (hash_error + Entry) \<times> HashTable" where
  "hash_Find xx t key =
     (let hash = Hasher xx key (gdepth t) in
      if length (buckets t) \<le> hash then (Inl NotFound, t)
      else case GetBucket t hash of
             Inl e \<Rightarrow> (Inl (nilBucketPanic e), t)
           | Inr (bpn, t1) \<Rightarrow>
               (case bucket_Find (sContent (pager t1) bpn) key of
                  None \<Rightarrow> (Inl NotFound, putPage t1)
                | Some entry \<Rightarrow> (Inr entry, putPage t1)))"

definition hash_Insert :: "(int \<Rightarrow> nat) \<Rightarrow> HashTable \<Rightarrow> int \<Rightarrow> int \<Rightarrow> hash_error option \<times> HashTable" where
  "hash_Insert xx t key v =
     (let hash = Hasher xx key (gdepth t) in
      case GetBucket t hash of
        Inl e \<Rightarrow> (Some (nilBucketPanic e), t)
      | Inr (bpn, t1) \<Rightarrow>
          (case bucket_Insert (sContent (pager t1) bpn) key v of
             Inl e \<Rightarrow> (Some e, t1)
           | Inr (split, bucket1) \<Rightarrow>
               let t2 = t1\<lparr>pager := sUpdate (pager t1) bpn bucket1\<rparr>
               in if \<not> split then (None, putPage t2)
                  else (case Split xx t2 bpn hash of (r, t3) \<Rightarrow> (r, putPage t3))))"




subsection \<open>The loops of Split\<close>

definition bucket_entries :: "HashBucket \<Rightarrow> Entry list" where
  "bucket_entries b = map (cells b) [0..<numKeys b]"

definition writeCells :: "HashBucket \<Rightarrow> nat \<Rightarrow> Entry list \<Rightarrow> HashBucket" where
  "writeCells b n es =
     b\<lparr>cells := (\<lambda>i. if n \<le> i \<and> i < n + length es then es ! (i - n) else cells b i)\<rparr>"

lemma writeCells_Nil: "writeCells b n [] = b"
  by (rule HashBucket.equality) (auto simp add: writeCells_def fun_eq_iff)

lemma writeCells_Cons: "writeCells (modifyCell b n e) (Suc n) es = writeCells b n (e # es)"
  by (rule HashBucket.equality) (auto simp add: writeCells_def modifyCell_def fun_eq_iff nth_Cons')

lemma depth_writeCells: "depth (writeCells b n es) = depth b"
  by (simp add: writeCells_def)

lemma depth_modifyCell: "depth (modifyCell b n e) = depth b"
  by (simp add: modifyCell_def)

lemma moveEntries_eq:
  "moveEntries xx newHash es bucket newBucket oldNKeys newNKeys =
     (writeCells bucket oldNKeys (filter (\<lambda>e. Hasher xx (GetKey e) (depth bucket) \<noteq> newHash) es),
      writeCells newBucket newNKeys (filter (\<lambda>e. Hasher xx (GetKey e) (depth bucket) = newHash) es),
      oldNKeys + length (filter (\<lambda>e. Hasher xx (GetKey e) (depth bucket) \<noteq> newHash) es),
      newNKeys + length (filter (\<lambda>e. Hasher xx (GetKey e) (depth bucket) = newHash) es))"
proof (induction es arbitrary: bucket newBucket oldNKeys newNKeys)
  case Nil
  then show ?case by (simp add: writeCells_Nil)
next
  case (Cons e es)
  show ?case
  proof (cases "Hasher xx (GetKey e) (depth bucket) = newHash")
    case True
    then show ?thesis
      using Cons.IH [of bucket "modifyCell newBucket newNKeys e" oldNKeys "Suc newNKeys"]
      by (simp add: writeCells_Cons)
  next
    case False
    then show ?thesis
      using Cons.IH [of "modifyCell bucket oldNKeys e" newBucket "Suc oldNKeys" newNKeys]
      by (simp add: writeCells_Cons depth_modifyCell)
  qed
qed

lemma bucket_entries_writeCells:
  "bucket_entries (updateNumKeys (writeCells b 0 es) (length es)) = es"
  by (auto simp add: bucket_entries_def updateNumKeys_def writeCells_def intro: nth_equalityI)

lemma cong_ge_step:
  fixes i j m :: nat
  assumes "i \<le> j" "j \<noteq> i" "j mod m = i mod m"
  shows "i + m \<le> j"
proof -
  have "m dvd j - i" using assms(1,3) by (simp add: mod_eq_dvd_iff_nat)
  moreover have "0 < j - i" using assms(1,2) by simp
  ultimately have "m \<le> j - i" by (rule dvd_imp_le)
  then show ?thesis using assms(1) by simp
qed

lemma rewire_eq:
  "length bs = lim \<Longrightarrow>
   rewire bs i lim pw pn =
     Some (map (\<lambda>j. if i \<le> j \<and> j mod 2 ^ pw = i mod 2 ^ pw then pn else bs ! j) [0..<lim])"
proof (induction bs i lim pw pn rule: rewire.induct)
  case (1 bs i lim pw pn)
  show ?case
  proof (cases "i < lim")
    case False
    then have "map (\<lambda>j. if i \<le> j \<and> j mod 2 ^ pw = i mod 2 ^ pw then pn else bs ! j) [0..<lim] = bs"
      using "1.prems" by (auto intro: nth_equalityI)
    then show ?thesis using False by (simp add: rewire.simps)
  next
    case True
    then have il: "i < length bs" using "1.prems" by simp
    have ih: "rewire (bs[i := pn]) (i + 2 ^ pw) lim pw pn =
       Some (map (\<lambda>j. if i + 2 ^ pw \<le> j \<and> j mod 2 ^ pw = (i + 2 ^ pw) mod 2 ^ pw then pn
                       else bs[i := pn] ! j) [0..<lim])"
      using "1.IH" [OF True il] "1.prems" by simp
    have "(\<lambda>j. if i + 2 ^ pw \<le> j \<and> j mod 2 ^ pw = (i + 2 ^ pw) mod 2 ^ pw then pn
               else bs[i := pn] ! j) j =
          (\<lambda>j. if i \<le> j \<and> j mod 2 ^ pw = i mod 2 ^ pw then pn else bs ! j) j"
      if "j < lim" for j
    proof (cases "j = i")
      case True
      then show ?thesis using il by simp
    next
      case False
      then show ?thesis
        using cong_ge_step [of i j "2 ^ pw"] by auto
    qed
    then have "map (\<lambda>j. if i + 2 ^ pw \<le> j \<and> j mod 2 ^ pw = (i + 2 ^ pw) mod 2 ^ pw then pn
                       else bs[i := pn] ! j) [0..<lim] =
          map (\<lambda>j. if i \<le> j \<and> j mod 2 ^ pw = i mod 2 ^ pw then pn else bs ! j) [0..<lim]"
      by (intro map_cong) auto
    then show ?thesis using True il ih by (subst rewire.simps) simp
  qed
qed

subsection \<open>The directory invariant and its preservation by Split\<close>

definition bucketAt :: "HashTable \<Rightarrow> nat \<Rightarrow> HashBucket" where
  "bucketAt t i = sContent (pager t) (buckets t ! i)"

lemma splitPrepare_simps:
  "gdepth (splitPrepare t bpn) =
     (if depth (sContent (pager t) bpn) = gdepth t then gdepth t + 1 else gdepth t)"
  "buckets (splitPrepare t bpn) =
     (if depth (sContent (pager t) bpn) = gdepth t then buckets t @ buckets t else buckets t)"
  "sPages (pager (splitPrepare t bpn)) = sPages (pager t)"
  "sFree (pager (splitPrepare t bpn)) = sFree (pager t)"
  "sContent (pager (splitPrepare t bpn)) =
     (sContent (pager t))(bpn := (sContent (pager t) bpn)\<lparr>depth := depth (sContent (pager t) bpn) + 1\<rparr>)"
  by (simp_all add: splitPrepare_def Let_def ExtendTable_def sUpdate_def updateDepth_def)

lemma splitOnce_result:
  fixes xx :: "int \<Rightarrow> nat" and newHash :: nat
  assumes fr: "0 < sFree (pager t1')" and len: "length (buckets t1) = 2 ^ gdepth t1"
    and t1: "t1 = splitPrepare t1' bpn" and np: "0 \<le> sPages (pager t1)"
  defines "b1 \<equiv> sContent (pager t1) bpn"
  defines "npn \<equiv> sPages (pager t1)"
  defines "fresh \<equiv> sContent (pager t1) npn"
  defines "keep \<equiv> filter (\<lambda>e. Hasher xx (GetKey e) (depth b1) \<noteq> newHash) (bucket_entries b1)"
  defines "move \<equiv> filter (\<lambda>e. Hasher xx (GetKey e) (depth b1) = newHash) (bucket_entries b1)"
  shows "\<exists>t3. splitOnce xx t1' bpn newHash = Inr (t3, npn, length keep, length move)
          \<and> gdepth t3 = gdepth t1
          \<and> buckets t3 = map (\<lambda>j. if newHash \<le> j \<and> j mod 2 ^ depth b1 = newHash mod 2 ^ depth b1
                                   then npn else buckets t1 ! j) [0..<2 ^ gdepth t1]
          \<and> sPages (pager t3) = sPages (pager t1) + 1
          \<and> sFree (pager t3) = sFree (pager t1) - 1
          \<and> sContent (pager t3) =
              (sContent (pager t1))
                (bpn := updateNumKeys (writeCells b1 0 keep) (length keep),
                 npn := updateNumKeys (writeCells (updateDepth fresh (depth b1)) 0 move) (length move))"
proof -
  have fr1: "0 < sFree (pager t1)" using fr t1 by (simp add: splitPrepare_simps)
  have nb: "NewHashBucket (pager t1) (depth b1) =
      Inr (npn, sUpdate ((pager t1)\<lparr>sFree := sFree (pager t1) - 1, sPages := sPages (pager t1) + 1\<rparr>)
                  npn (updateDepth fresh (depth b1)))"
    using fr1 np
    by (simp add: NewHashBucket_def Let_def sGetPage_def npn_def fresh_def sUpdate_def)
  have es: "map (getCell b1) [0..<numKeys b1] = bucket_entries b1"
    by (simp add: bucket_entries_def getCell_def fun_eq_iff cong: map_cong)
  show ?thesis
    unfolding splitOnce_def Let_def t1 [symmetric] b1_def [symmetric]
    apply (simp only: nb sum.case prod.case es moveEntries_eq depth_writeCells
        rewire_eq [OF len] option.case)
    apply (simp add: keep_def move_def sUpdate_def fresh_def npn_def)
    done
qed

definition hash_inv :: "(int \<Rightarrow> nat) \<Rightarrow> HashTable \<Rightarrow> bool" where
  "hash_inv xx t =
     (length (buckets t) = 2 ^ gdepth t \<and>
      (\<forall>i<length (buckets t).
         0 \<le> buckets t ! i \<and> buckets t ! i < sPages (pager t)
         \<and> depth (bucketAt t i) \<le> gdepth t
         \<and> numKeys (bucketAt t i) \<le> BUCKETSIZE
         \<and> (\<forall>j<length (buckets t).
               j mod 2 ^ depth (bucketAt t i) = i mod 2 ^ depth (bucketAt t i)
               \<longrightarrow> buckets t ! j = buckets t ! i)
         \<and> (\<forall>c<numKeys (bucketAt t i).
               buckets t ! Hasher xx (GetKey (cells (bucketAt t i) c)) (gdepth t) = buckets t ! i)))"

definition table_entries :: "HashTable \<Rightarrow> Entry set" where
  "table_entries t = (\<Union>i<length (buckets t). set (bucket_entries (bucketAt t i)))"

lemma Hasher_less: "Hasher xx k d < 2 ^ d"
  by (simp add: Hasher_def)

lemma Hasher_mod: "d \<le> g \<Longrightarrow> Hasher xx k g mod 2 ^ d = Hasher xx k d"
  by (simp add: Hasher_def mod_mod_cancel le_imp_power_dvd)

lemma mod_pow_mod: "d \<le> g \<Longrightarrow> (j mod 2 ^ g) mod 2 ^ d = (j::nat) mod 2 ^ d"
  by (simp add: mod_mod_cancel le_imp_power_dvd)

lemma nth_append_self: "j < 2 * length bs \<Longrightarrow> (bs @ bs) ! j = bs ! (j mod length bs)"
  by (cases "j < length bs") (auto simp add: nth_append le_mod_geq)

lemma hash_inv_ExtendTable:
  assumes "hash_inv xx t"
  shows "hash_inv xx (ExtendTable t)"
proof -
  let ?G = "gdepth t" and ?bs = "buckets t"
  have len: "length ?bs = 2 ^ ?G" using assms by (simp add: hash_inv_def)
  have nth: "(?bs @ ?bs) ! j = ?bs ! (j mod 2 ^ ?G)" if "j < 2 ^ Suc ?G" for j
    using that len nth_append_self [of j ?bs] by simp
  have lt: "j mod 2 ^ ?G < length ?bs" for j :: nat
    using len by simp
  have ba: "bucketAt (ExtendTable t) j = bucketAt t (j mod 2 ^ ?G)" if "j < 2 ^ Suc ?G" for j
    using nth [OF that] by (simp add: bucketAt_def ExtendTable_def)
  show ?thesis
    unfolding hash_inv_def
  proof (intro conjI allI impI)
    show "length (buckets (ExtendTable t)) = 2 ^ gdepth (ExtendTable t)"
      using len by (simp add: ExtendTable_def)
  next
    fix i assume "i < length (buckets (ExtendTable t))"
    then have i: "i < 2 ^ Suc ?G" using len by (simp add: ExtendTable_def)
    let ?i = "i mod 2 ^ ?G"
    from assms lt [of i] have inv:
      "0 \<le> ?bs ! ?i" "?bs ! ?i < sPages (pager t)" "depth (bucketAt t ?i) \<le> ?G"
      "numKeys (bucketAt t ?i) \<le> BUCKETSIZE"
      "\<And>j. j < length ?bs \<Longrightarrow> j mod 2 ^ depth (bucketAt t ?i) = ?i mod 2 ^ depth (bucketAt t ?i)
          \<Longrightarrow> ?bs ! j = ?bs ! ?i"
      "\<And>c. c < numKeys (bucketAt t ?i) \<Longrightarrow>
          ?bs ! Hasher xx (GetKey (cells (bucketAt t ?i) c)) ?G = ?bs ! ?i"
      unfolding hash_inv_def by blast+
    show "0 \<le> buckets (ExtendTable t) ! i"
      using inv(1) nth [OF i] by (simp add: ExtendTable_def)
    show "buckets (ExtendTable t) ! i < sPages (pager (ExtendTable t))"
      using inv(2) nth [OF i] by (simp add: ExtendTable_def)
    show "depth (bucketAt (ExtendTable t) i) \<le> gdepth (ExtendTable t)"
      using inv(3) ba [OF i] by (simp add: ExtendTable_def)
    show "numKeys (bucketAt (ExtendTable t) i) \<le> BUCKETSIZE"
      using inv(4) ba [OF i] by simp
    {
      fix j assume "j < length (buckets (ExtendTable t))"
        and e: "j mod 2 ^ depth (bucketAt (ExtendTable t) i) = i mod 2 ^ depth (bucketAt (ExtendTable t) i)"
      then have j: "j < 2 ^ Suc ?G" using len by (simp add: ExtendTable_def)
      let ?d = "depth (bucketAt t ?i)"
      from e have "j mod 2 ^ ?d = i mod 2 ^ ?d" by (simp add: ba [OF i])
      then have "(j mod 2 ^ ?G) mod 2 ^ ?d = ?i mod 2 ^ ?d"
        using inv(3) by (simp add: mod_pow_mod)
      from inv(5) [OF lt this] show "buckets (ExtendTable t) ! j = buckets (ExtendTable t) ! i"
        using nth [OF i] nth [OF j] by (simp add: ExtendTable_def)
    }
    {
      fix c assume "c < numKeys (bucketAt (ExtendTable t) i)"
      then have c: "c < numKeys (bucketAt t ?i)" by (simp add: ba [OF i])
      let ?k = "GetKey (cells (bucketAt t ?i) c)"
      have "Hasher xx ?k (Suc ?G) < 2 ^ Suc ?G" by (rule Hasher_less)
      from nth [OF this] have "(?bs @ ?bs) ! Hasher xx ?k (Suc ?G) = ?bs ! Hasher xx ?k ?G"
        by (simp add: Hasher_mod)
      with inv(6) [OF c] nth [OF i]
      show "buckets (ExtendTable t) ! Hasher xx (GetKey (cells (bucketAt (ExtendTable t) i) c))
                (gdepth (ExtendTable t)) = buckets (ExtendTable t) ! i"
        unfolding ba [OF i] by (simp add: ExtendTable_def)
    }
  qed
qed

lemma table_entries_ExtendTable:
  assumes "length (buckets t) = 2 ^ gdepth t"
  shows "table_entries (ExtendTable t) = table_entries t"
proof -
  let ?G = "gdepth t" and ?bs = "buckets t"
  have nth: "(?bs @ ?bs) ! j = ?bs ! (j mod 2 ^ ?G)" if "j < 2 ^ Suc ?G" for j
    using that assms nth_append_self [of j ?bs] by simp
  have ba: "bucketAt (ExtendTable t) j = bucketAt t (j mod 2 ^ ?G)" if "j < 2 ^ Suc ?G" for j
    using nth [OF that] by (simp add: bucketAt_def ExtendTable_def)
  have l: "length (buckets (ExtendTable t)) = 2 ^ Suc ?G" using assms by (simp add: ExtendTable_def)
  show ?thesis
  proof (intro set_eqI iffI)
    fix e assume "e \<in> table_entries (ExtendTable t)"
    then obtain j where "j < 2 ^ Suc ?G" "e \<in> set (bucket_entries (bucketAt (ExtendTable t) j))"
      by (auto simp add: table_entries_def l)
    then have "e \<in> set (bucket_entries (bucketAt t (j mod 2 ^ ?G)))" "j mod 2 ^ ?G < length ?bs"
      using assms by (simp_all add: ba)
    then show "e \<in> table_entries t" unfolding table_entries_def by blast
  next
    fix e assume "e \<in> table_entries t"
    then obtain j where j: "j < 2 ^ ?G" "e \<in> set (bucket_entries (bucketAt t j))"
      using assms by (auto simp add: table_entries_def)
    then have "j < 2 ^ Suc ?G" by simp
    with j ba [OF this] have "e \<in> set (bucket_entries (bucketAt (ExtendTable t) j))" by simp
    with \<open>j < 2 ^ Suc ?G\<close> show "e \<in> table_entries (ExtendTable t)"
      unfolding table_entries_def l by blast
  qed
qed

lemma hash_invD:
  assumes "hash_inv xx t" and "i < length (buckets t)"
  shows "0 \<le> buckets t ! i" "buckets t ! i < sPages (pager t)"
    "depth (bucketAt t i) \<le> gdepth t" "numKeys (bucketAt t i) \<le> BUCKETSIZE"
    "\<And>j. j < length (buckets t) \<Longrightarrow>
        j mod 2 ^ depth (bucketAt t i) = i mod 2 ^ depth (bucketAt t i) \<Longrightarrow>
        buckets t ! j = buckets t ! i"
    "\<And>c. c < numKeys (bucketAt t i) \<Longrightarrow>
        buckets t ! Hasher xx (GetKey (cells (bucketAt t i) c)) (gdepth t) = buckets t ! i"
  using assms unfolding hash_inv_def by blast+

lemma hash_inv_length: "hash_inv xx t \<Longrightarrow> length (buckets t) = 2 ^ gdepth t"
  by (simp add: hash_inv_def)

lemma bucket_entries_iff:
  "e \<in> set (bucket_entries b) \<longleftrightarrow> (\<exists>c<numKeys b. e = cells b c)"
  by (auto simp add: bucket_entries_def)

lemma written_bucket:
  "depth (updateNumKeys (writeCells b 0 es) (length es)) = depth b"
  "numKeys (updateNumKeys (writeCells b 0 es) (length es)) = length es"
  "c < length es \<Longrightarrow> cells (updateNumKeys (writeCells b 0 es) (length es)) c = es ! c"
  by (simp_all add: updateNumKeys_def writeCells_def)

lemma split_step_inv:
  fixes xx :: "int \<Rightarrow> nat" and t t3 :: HashTable and bpn :: int and hash :: nat
  defines "d \<equiv> depth (sContent (pager t) bpn)"
  defines "newHash \<equiv> hash mod 2 ^ d + 2 ^ d"
  defines "npn \<equiv> sPages (pager t)"
  defines "es \<equiv> bucket_entries (sContent (pager t) bpn)"
  defines "keep \<equiv> filter (\<lambda>e. Hasher xx (GetKey e) (d + 1) \<noteq> newHash) es"
  defines "move \<equiv> filter (\<lambda>e. Hasher xx (GetKey e) (d + 1) = newHash) es"
  assumes inv: "hash_inv xx t" and h: "hash < length (buckets t)" and b: "buckets t ! hash = bpn"
    and dG: "d < gdepth t"
    and g3: "gdepth t3 = gdepth t"
    and bs3: "buckets t3 = map (\<lambda>j. if newHash \<le> j \<and> j mod 2 ^ (d + 1) = newHash mod 2 ^ (d + 1)
                                   then npn else buckets t ! j) [0..<2 ^ gdepth t]"
    and p3: "sPages (pager t3) = sPages (pager t) + 1"
    and cb: "depth (sContent (pager t3) bpn) = d + 1"
            "bucket_entries (sContent (pager t3) bpn) = keep"
    and cn: "depth (sContent (pager t3) npn) = d + 1"
            "bucket_entries (sContent (pager t3) npn) = move"
    and co: "\<And>q. q \<noteq> bpn \<Longrightarrow> q \<noteq> npn \<Longrightarrow> sContent (pager t3) q = sContent (pager t) q"
  shows "hash_inv xx t3 \<and> buckets t3 ! (hash mod 2 ^ d) = bpn \<and> buckets t3 ! newHash = npn
         \<and> hash mod 2 ^ d < length (buckets t3) \<and> newHash < length (buckets t3)
         \<and> table_entries t3 = table_entries t"
proof -
  let ?G = "gdepth t" and ?bs = "buckets t" and ?C = "sContent (pager t)"
  let ?m = "(2::nat) ^ (d + 1)"
  have len: "length ?bs = 2 ^ ?G" using inv by (rule hash_inv_length)
  have len3: "length (buckets t3) = 2 ^ ?G" by (simp add: bs3)
  have nH: "newHash < ?m" by (simp add: newHash_def)
  have mG: "?m \<le> 2 ^ ?G" using dG by (simp add: power_increasing Suc_leI del: power_Suc)
  have nHG: "newHash < 2 ^ ?G" using nH mG by simp
  have oHG: "hash mod 2 ^ d < 2 ^ ?G"
  proof -
    have "hash mod 2 ^ d < (2::nat) ^ d" by simp
    also have "\<dots> \<le> 2 ^ ?G" using dG by (simp add: power_increasing)
    finally show ?thesis .
  qed
  have nth3: "buckets t3 ! j = (if j mod ?m = newHash then npn else ?bs ! j)" if "j < 2 ^ ?G" for j
  proof -
    have "(newHash \<le> j \<and> j mod ?m = newHash mod ?m) \<longleftrightarrow> j mod ?m = newHash"
      using nH mod_less_eq_dividend [of j ?m] by auto
    then show ?thesis using that by (simp add: bs3 del: power_Suc)
  qed
  have bh: "bucketAt t hash = ?C bpn" using b by (simp add: bucketAt_def)
  have pb: "0 \<le> bpn" "bpn < npn" using hash_invD(1,2) [OF inv h] b by (simp_all add: npn_def)
  have clo: "?bs ! j = bpn" if "j < 2 ^ ?G" "j mod 2 ^ d = hash mod 2 ^ d" for j
    using hash_invD(5) [OF inv h, of j] that len b by (simp add: bh d_def)
  have nHd: "newHash mod 2 ^ d = hash mod 2 ^ d" by (simp add: newHash_def)
  have rew: "?bs ! j = bpn" if "j < 2 ^ ?G" "j mod ?m = newHash" for j
  proof -
    have "j mod 2 ^ d = (j mod ?m) mod 2 ^ d" by (simp add: mod_pow_mod del: power_Suc)
    also have "\<dots> = hash mod 2 ^ d" using that(2) nHd by simp
    finally show ?thesis using clo that(1) by simp
  qed
  have slot_mod: "Hasher xx k ?G mod ?m = Hasher xx k (d + 1)" for k
    using dG by (simp add: Hasher_mod Suc_leI del: power_Suc)
  have es_slot: "?bs ! Hasher xx (GetKey e) ?G = bpn" if "e \<in> set es" for e
  proof -
    from that obtain c where "c < numKeys (?C bpn)" "e = cells (?C bpn) c"
      by (auto simp add: es_def bucket_entries_iff)
    then show ?thesis using hash_invD(6) [OF inv h, of c] b by (simp add: bh)
  qed
  have es_len: "length es \<le> BUCKETSIZE"
    using hash_invD(4) [OF inv h] by (simp add: es_def bucket_entries_def bh)
  have numKeys_entries: "numKeys x = length (bucket_entries x)" for x
    by (simp add: bucket_entries_def)
  have cells_entries: "c < numKeys x \<Longrightarrow> cells x c = bucket_entries x ! c" for x c
    by (simp add: bucket_entries_def)
  have b3: "bucketAt t3 j =
      (if j mod ?m = newHash then sContent (pager t3) npn
       else if ?bs ! j = bpn then sContent (pager t3) bpn else bucketAt t j)"
    if "j < 2 ^ ?G" for j
  proof -
    have "?bs ! j < npn" using hash_invD(2) [OF inv, of j] that len by (simp add: npn_def)
    then show ?thesis using nth3 [OF that] co [of "?bs ! j"] by (auto simp add: bucketAt_def)
  qed
  have inv3: "hash_inv xx t3"
    unfolding hash_inv_def
  proof (intro conjI allI impI)
    show "length (buckets t3) = 2 ^ gdepth t3" by (simp add: len3 g3)
  next
    fix i assume "i < length (buckets t3)"
    then have i: "i < 2 ^ ?G" by (simp add: len3)
    then have il: "i < length ?bs" by (simp add: len)
    note I = hash_invD [OF inv il]
    show "0 \<le> buckets t3 ! i"
      using nth3 [OF i] I(1) pb by (simp add: npn_def)
    show "buckets t3 ! i < sPages (pager t3)"
      using nth3 [OF i] I(2) by (simp add: p3 npn_def)
    show "depth (bucketAt t3 i) \<le> gdepth t3"
      using b3 [OF i] cb(1) cn(1) I(3) dG by (simp add: g3)
    show "numKeys (bucketAt t3 i) \<le> BUCKETSIZE"
    proof -
      have "length keep \<le> length es" "length move \<le> length es"
        by (simp_all add: keep_def move_def)
      then show ?thesis
        using b3 [OF i] cb(2) cn(2) I(4) es_len by (simp add: numKeys_entries)
    qed
    {
      fix j assume "j < length (buckets t3)"
        and e: "j mod 2 ^ depth (bucketAt t3 i) = i mod 2 ^ depth (bucketAt t3 i)"
      then have j: "j < 2 ^ ?G" by (simp add: len3)
      then have jl: "j < length ?bs" by (simp add: len)
      show "buckets t3 ! j = buckets t3 ! i"
      proof (cases "i mod ?m = newHash")
        case True
        then have "j mod ?m = newHash" using e b3 [OF i] cn(1) by simp
        then show ?thesis using True nth3 [OF i] nth3 [OF j] by simp
      next
        case ni: False
        show ?thesis
        proof (cases "?bs ! i = bpn")
          case True
          then have e': "j mod ?m = i mod ?m" using e b3 [OF i] ni cb(1) by simp
          then have "j mod 2 ^ d = i mod 2 ^ d"
            using mod_pow_mod [of d "d + 1" j] mod_pow_mod [of d "d + 1" i] by simp
          moreover have "depth (bucketAt t i) = d" using True by (simp add: bucketAt_def d_def)
          ultimately have "?bs ! j = ?bs ! i" using I(5) [OF jl] by simp
          then show ?thesis using nth3 [OF i] nth3 [OF j] ni e' by simp
        next
          case False
          then have e': "j mod 2 ^ depth (bucketAt t i) = i mod 2 ^ depth (bucketAt t i)"
            using e b3 [OF i] ni by simp
          then have eq: "?bs ! j = ?bs ! i" using I(5) [OF jl] by simp
          then have "j mod ?m \<noteq> newHash" using rew [OF j] False by auto
          then show ?thesis using nth3 [OF i] nth3 [OF j] ni eq by simp
        qed
      qed
    }
    {
      fix c assume c: "c < numKeys (bucketAt t3 i)"
      let ?k = "GetKey (cells (bucketAt t3 i) c)"
      have sl: "Hasher xx ?k ?G < 2 ^ ?G" by (rule Hasher_less)
      show "buckets t3 ! Hasher xx ?k (gdepth t3) = buckets t3 ! i"
      proof (cases "i mod ?m = newHash")
        case True
        then have ba: "bucketAt t3 i = sContent (pager t3) npn" using b3 [OF i] by simp
        then have "cells (bucketAt t3 i) c \<in> set move"
          using c cn(2) by (simp add: numKeys_entries cells_entries)
        then have "Hasher xx ?k (d + 1) = newHash" by (simp add: move_def)
        then have "Hasher xx ?k ?G mod ?m = newHash" by (simp only: slot_mod)
        then show ?thesis using nth3 [OF sl] nth3 [OF i] True by (simp add: g3)
      next
        case ni: False
        show ?thesis
        proof (cases "?bs ! i = bpn")
          case True
          then have ba: "bucketAt t3 i = sContent (pager t3) bpn" using b3 [OF i] ni by simp
          then have mem: "cells (bucketAt t3 i) c \<in> set keep"
            using c cb(2) by (simp add: numKeys_entries cells_entries)
          then have "Hasher xx ?k (d + 1) \<noteq> newHash" by (simp add: keep_def)
          then have nr: "Hasher xx ?k ?G mod ?m \<noteq> newHash" by (simp only: slot_mod) simp
          from mem have "cells (bucketAt t3 i) c \<in> set es" by (simp add: keep_def)
          then have "?bs ! Hasher xx ?k ?G = bpn" by (rule es_slot)
          then show ?thesis using nth3 [OF sl] nth3 [OF i] ni nr True by (simp add: g3)
        next
          case False
          then have ba: "bucketAt t3 i = bucketAt t i" using b3 [OF i] ni by simp
          then have eq: "?bs ! Hasher xx ?k ?G = ?bs ! i" using I(6) [of c] c by simp
          then have "Hasher xx ?k ?G mod ?m \<noteq> newHash" using rew [OF sl] False by auto
          then show ?thesis using nth3 [OF sl] nth3 [OF i] ni eq by (simp add: g3)
        qed
      qed
    }
  qed
  have o3: "buckets t3 ! (hash mod 2 ^ d) = bpn"
  proof -
    have "(hash mod 2 ^ d) mod ?m = hash mod 2 ^ d"
      by (rule mod_less) (simp add: less_le_trans [OF mod_less_divisor])
    moreover have "hash mod 2 ^ d \<noteq> newHash" by (simp add: newHash_def)
    moreover have "?bs ! (hash mod 2 ^ d) = bpn" using clo [OF oHG] by simp
    ultimately show ?thesis using nth3 [OF oHG] by simp
  qed
  have n3: "buckets t3 ! newHash = npn" using nth3 [OF nHG] nH by simp
  have te: "table_entries t3 = table_entries t"
  proof (intro set_eqI iffI)
    fix e assume "e \<in> table_entries t3"
    then obtain i where i: "i < 2 ^ ?G" and e: "e \<in> set (bucket_entries (bucketAt t3 i))"
      by (auto simp add: table_entries_def len3)
    have "e \<in> set es \<or> e \<in> set (bucket_entries (bucketAt t i))"
      using e b3 [OF i] cb(2) cn(2) by (auto simp add: keep_def move_def split: if_splits)
    moreover have "set es = set (bucket_entries (bucketAt t hash))" by (simp add: es_def bh)
    ultimately show "e \<in> table_entries t"
      using i h len unfolding table_entries_def by auto
  next
    fix e assume "e \<in> table_entries t"
    then obtain i where i: "i < 2 ^ ?G" and e: "e \<in> set (bucket_entries (bucketAt t i))"
      by (auto simp add: table_entries_def len)
    show "e \<in> table_entries t3"
    proof (cases "?bs ! i = bpn")
      case True
      then have "e \<in> set es" using e by (simp add: es_def bucketAt_def)
      then have "e \<in> set keep \<or> e \<in> set move" by (auto simp add: keep_def move_def)
      moreover have "bucketAt t3 (hash mod 2 ^ d) = sContent (pager t3) bpn"
        using o3 by (simp add: bucketAt_def)
      moreover have "bucketAt t3 newHash = sContent (pager t3) npn"
        using n3 by (simp add: bucketAt_def)
      ultimately have "e \<in> set (bucket_entries (bucketAt t3 (hash mod 2 ^ d)))
          \<or> e \<in> set (bucket_entries (bucketAt t3 newHash))"
        using cb(2) cn(2) by auto
      then show ?thesis
        using oHG nHG unfolding table_entries_def len3 by blast
    next
      case False
      then have "i mod ?m \<noteq> newHash" using rew [OF i] by auto
      then have "bucketAt t3 i = bucketAt t i" using b3 [OF i] False by simp
      then have "e \<in> set (bucket_entries (bucketAt t3 i))" using e by simp
      then show ?thesis using i unfolding table_entries_def len3 by blast
    qed
  qed
  from inv3 o3 n3 oHG nHG te show ?thesis by (simp add: len3)
qed

lemma bucketAt_cong_table:
  "buckets t' = buckets t \<Longrightarrow> sContent (pager t') = sContent (pager t) \<Longrightarrow>
   bucketAt t' i = bucketAt t i"
  by (simp add: bucketAt_def)

lemma hash_inv_cong:
  assumes "hash_inv xx t" "gdepth t' = gdepth t" "buckets t' = buckets t"
    "sContent (pager t') = sContent (pager t)" "sPages (pager t') = sPages (pager t)"
  shows "hash_inv xx t'"
proof -
  have "hash_inv xx t' = hash_inv xx t"
    unfolding hash_inv_def bucketAt_def by (simp only: assms(2-5))
  then show ?thesis using assms(1) by simp
qed

lemma table_entries_cong:
  assumes "buckets t' = buckets t" "sContent (pager t') = sContent (pager t)"
  shows "table_entries t' = table_entries t"
  unfolding table_entries_def bucketAt_def by (simp only: assms)

lemma hash_inv_putPage: "hash_inv xx t \<Longrightarrow> hash_inv xx (putPage t)"
  by (erule hash_inv_cong) (simp_all add: putPage_def sPut_def)

lemma table_entries_putPage: "table_entries (putPage t) = table_entries t"
  by (rule table_entries_cong) (simp_all add: putPage_def sPut_def)

text \<open>Raising the depth recorded in a bucket, as long as it stays within the global depth.\<close>

lemma hash_inv_deepen:
  assumes inv: "hash_inv xx t" and h: "hash < length (buckets t)" and b: "buckets t ! hash = bpn"
    and dG: "depth (sContent (pager t) bpn) < gdepth t"
    and g: "gdepth t' = gdepth t" and bs: "buckets t' = buckets t"
    and p: "sPages (pager t') = sPages (pager t)"
    and c: "sContent (pager t') =
        (sContent (pager t))(bpn := (sContent (pager t) bpn)\<lparr>depth := depth (sContent (pager t) bpn) + 1\<rparr>)"
  shows "hash_inv xx t' \<and> table_entries t' = table_entries t"
proof -
  let ?d = "depth (sContent (pager t) bpn)"
  have ba: "bucketAt t' i = (if buckets t ! i = bpn then (bucketAt t i)\<lparr>depth := ?d + 1\<rparr> else bucketAt t i)"
    for i
    by (simp add: bucketAt_def bs c)
  have be: "bucket_entries (bucketAt t' i) = bucket_entries (bucketAt t i)" for i
    by (simp add: ba bucket_entries_def)
  have te: "table_entries t' = table_entries t"
    by (simp add: table_entries_def be bs)
  have "hash_inv xx t'"
    unfolding hash_inv_def
  proof (intro conjI allI impI)
    show "length (buckets t') = 2 ^ gdepth t'" using inv by (simp add: bs g hash_inv_length)
  next
    fix i assume "i < length (buckets t')"
    then have il: "i < length (buckets t)" by (simp add: bs)
    note I = hash_invD [OF inv il]
    show "0 \<le> buckets t' ! i" using I(1) by (simp add: bs)
    show "buckets t' ! i < sPages (pager t')" using I(2) by (simp add: bs p)
    show "depth (bucketAt t' i) \<le> gdepth t'" using I(3) dG by (simp add: ba g)
    show "numKeys (bucketAt t' i) \<le> BUCKETSIZE" using I(4) by (simp add: ba)
    {
      fix j assume "j < length (buckets t')"
        and e: "j mod 2 ^ depth (bucketAt t' i) = i mod 2 ^ depth (bucketAt t' i)"
      then have jl: "j < length (buckets t)" by (simp add: bs)
      have "j mod 2 ^ depth (bucketAt t i) = i mod 2 ^ depth (bucketAt t i)"
      proof (cases "buckets t ! i = bpn")
        case True
        then have d: "depth (bucketAt t i) = ?d" by (simp add: bucketAt_def)
        from e True have "j mod 2 ^ (?d + 1) = i mod 2 ^ (?d + 1)" by (simp add: ba)
        then show ?thesis
          using mod_pow_mod [of ?d "?d + 1" j] mod_pow_mod [of ?d "?d + 1" i] d by simp
      next
        case False
        then show ?thesis using e by (simp add: ba)
      qed
      then show "buckets t' ! j = buckets t' ! i" using I(5) [OF jl] by (simp add: bs)
    }
    {
      fix c assume "c < numKeys (bucketAt t' i)"
      then have "c < numKeys (bucketAt t i)" by (simp add: ba split: if_splits)
      from I(6) [OF this]
      show "buckets t' ! Hasher xx (GetKey (cells (bucketAt t' i) c)) (gdepth t') = buckets t' ! i"
        by (simp add: ba bs g)
    }
  qed
  with te show ?thesis by simp
qed

text \<open>The table after a possible doubling, before the depth of the bucket is written.\<close>

definition maybeExtend :: "HashTable \<Rightarrow> int \<Rightarrow> HashTable" where
  "maybeExtend t bpn = (if depth (sContent (pager t) bpn) = gdepth t then ExtendTable t else t)"

lemma maybeExtend_props:
  assumes inv: "hash_inv xx t" and h: "hash < length (buckets t)" and b: "buckets t ! hash = bpn"
  shows "hash_inv xx (maybeExtend t bpn)" "hash < length (buckets (maybeExtend t bpn))"
    "buckets (maybeExtend t bpn) ! hash = bpn"
    "depth (sContent (pager (maybeExtend t bpn)) bpn) < gdepth (maybeExtend t bpn)"
    "table_entries (maybeExtend t bpn) = table_entries t"
    "pager (maybeExtend t bpn) = pager t"
proof -
  have dle: "depth (sContent (pager t) bpn) \<le> gdepth t"
    using hash_invD(3) [OF inv h] b by (simp add: bucketAt_def)
  show "hash_inv xx (maybeExtend t bpn)"
    using inv by (simp add: maybeExtend_def hash_inv_ExtendTable)
  show "hash < length (buckets (maybeExtend t bpn))"
    using h by (simp add: maybeExtend_def ExtendTable_def)
  show "buckets (maybeExtend t bpn) ! hash = bpn"
    using h b by (simp add: maybeExtend_def ExtendTable_def nth_append)
  show "depth (sContent (pager (maybeExtend t bpn)) bpn) < gdepth (maybeExtend t bpn)"
    using dle by (auto simp add: maybeExtend_def ExtendTable_def)
  show "table_entries (maybeExtend t bpn) = table_entries t"
    using hash_inv_length [OF inv] by (simp add: maybeExtend_def table_entries_ExtendTable)
  show "pager (maybeExtend t bpn) = pager t"
    by (simp add: maybeExtend_def ExtendTable_def)
qed

lemma splitPrepare_maybeExtend:
  "gdepth (splitPrepare t bpn) = gdepth (maybeExtend t bpn)"
  "buckets (splitPrepare t bpn) = buckets (maybeExtend t bpn)"
  by (simp_all add: splitPrepare_simps maybeExtend_def ExtendTable_def)

lemma splitPrepare_inv:
  assumes inv: "hash_inv xx t" and h: "hash < length (buckets t)" and b: "buckets t ! hash = bpn"
  shows "hash_inv xx (splitPrepare t bpn) \<and> table_entries (splitPrepare t bpn) = table_entries t"
proof -
  note M = maybeExtend_props [OF inv h b]
  have "hash_inv xx (splitPrepare t bpn)
      \<and> table_entries (splitPrepare t bpn) = table_entries (maybeExtend t bpn)"
    by (rule hash_inv_deepen [OF M(1) M(2) M(3) M(4)])
       (simp_all add: splitPrepare_maybeExtend splitPrepare_simps M(6))
  then show ?thesis using M(5) by simp
qed

lemma splitOnce_inv:
  fixes xx :: "int \<Rightarrow> nat" and t :: HashTable and bpn :: int and hash :: nat
  defines "d \<equiv> depth (sContent (pager t) bpn)"
  defines "newHash \<equiv> hash mod 2 ^ d + 2 ^ d"
  defines "es \<equiv> bucket_entries (sContent (pager t) bpn)"
  assumes inv: "hash_inv xx t" and h: "hash < length (buckets t)" and b: "buckets t ! hash = bpn"
    and fr: "0 < sFree (pager t)"
  shows "\<exists>t3. splitOnce xx t bpn newHash =
            Inr (t3, sPages (pager t),
                 length (filter (\<lambda>e. Hasher xx (GetKey e) (d + 1) \<noteq> newHash) es),
                 length (filter (\<lambda>e. Hasher xx (GetKey e) (d + 1) = newHash) es))
          \<and> hash_inv xx t3
          \<and> buckets t3 ! (hash mod 2 ^ d) = bpn \<and> buckets t3 ! newHash = sPages (pager t)
          \<and> hash mod 2 ^ d < length (buckets t3) \<and> newHash < length (buckets t3)
          \<and> table_entries t3 = table_entries t
          \<and> sFree (pager t3) = sFree (pager t) - 1
          \<and> gdepth t3 = gdepth (splitPrepare t bpn)
          \<and> buckets t3 = map (\<lambda>j. if j mod 2 ^ (d + 1) = newHash then sPages (pager t)
                                   else buckets (splitPrepare t bpn) ! j)
                             [0..<2 ^ gdepth (splitPrepare t bpn)]
          \<and> bucket_entries (sContent (pager t3) bpn) =
                filter (\<lambda>e. Hasher xx (GetKey e) (d + 1) \<noteq> newHash) es
          \<and> bucket_entries (sContent (pager t3) (sPages (pager t))) =
                filter (\<lambda>e. Hasher xx (GetKey e) (d + 1) = newHash) es
          \<and> depth (sContent (pager t3) bpn) = d + 1
          \<and> depth (sContent (pager t3) (sPages (pager t))) = d + 1
          \<and> (\<forall>q. q \<noteq> bpn \<and> q \<noteq> sPages (pager t) \<longrightarrow>
                 sContent (pager t3) q = sContent (pager t) q)"
proof -
  let ?t' = "maybeExtend t bpn" and ?t1 = "splitPrepare t bpn"
  let ?npn = "sPages (pager t)"
  let ?keep = "filter (\<lambda>e. Hasher xx (GetKey e) (d + 1) \<noteq> newHash) es"
  let ?move = "filter (\<lambda>e. Hasher xx (GetKey e) (d + 1) = newHash) es"
  note M = maybeExtend_props [OF inv h b]
  have pb: "0 \<le> bpn" "bpn < ?npn" using hash_invD(1,2) [OF inv h] b by simp_all
  have len1: "length (buckets ?t1) = 2 ^ gdepth ?t1"
    using hash_inv_length [OF M(1)] by (simp add: splitPrepare_maybeExtend)
  have np: "0 \<le> sPages (pager ?t1)" using pb by (simp add: splitPrepare_simps)
  have b1: "sContent (pager ?t1) bpn = (sContent (pager t) bpn)\<lparr>depth := d + 1\<rparr>"
    by (simp add: splitPrepare_simps d_def)
  have db1: "depth (sContent (pager ?t1) bpn) = d + 1" by (simp add: b1)
  have eb1: "bucket_entries (sContent (pager ?t1) bpn) = es"
    by (simp add: b1 es_def bucket_entries_def)
  from splitOnce_result [OF fr len1 refl np, of xx newHash]
  obtain t3 where t3:
    "splitOnce xx t bpn newHash = Inr (t3, ?npn, length ?keep, length ?move)"
    "gdepth t3 = gdepth ?t1"
    "buckets t3 = map (\<lambda>j. if newHash \<le> j \<and> j mod 2 ^ (d + 1) = newHash mod 2 ^ (d + 1)
                             then ?npn else buckets ?t1 ! j) [0..<2 ^ gdepth ?t1]"
    "sPages (pager t3) = ?npn + 1"
    "sFree (pager t3) = sFree (pager t) - 1"
    "sContent (pager t3) =
       (sContent (pager ?t1))
         (bpn := updateNumKeys (writeCells (sContent (pager ?t1) bpn) 0 ?keep) (length ?keep),
          ?npn := updateNumKeys
                   (writeCells (updateDepth (sContent (pager ?t1) ?npn) (d + 1)) 0 ?move)
                   (length ?move))"
    unfolding db1 eb1 by (auto simp add: splitPrepare_simps(3,4))
  have cb: "depth (sContent (pager t3) bpn) = d + 1"
    "bucket_entries (sContent (pager t3) bpn) = ?keep"
    using pb by (simp_all add: t3(6) written_bucket db1 bucket_entries_writeCells)
  have cn: "depth (sContent (pager t3) ?npn) = d + 1"
    "bucket_entries (sContent (pager t3) ?npn) = ?move"
    by (simp_all add: t3(6) written_bucket bucket_entries_writeCells updateDepth_def)
  have co: "sContent (pager t3) q = sContent (pager ?t') q" if "q \<noteq> bpn" "q \<noteq> ?npn" for q
    using that by (simp add: t3(6) splitPrepare_simps M(6))
  have nH: "newHash < 2 ^ (d + 1)" by (simp add: newHash_def)
  have bs3': "buckets t3 = map (\<lambda>j. if j mod 2 ^ (d + 1) = newHash then ?npn
                                   else buckets ?t1 ! j) [0..<2 ^ gdepth ?t1]"
  proof -
    have "(newHash \<le> j \<and> j mod 2 ^ (d + 1) = newHash mod 2 ^ (d + 1))
        \<longleftrightarrow> j mod 2 ^ (d + 1) = newHash" for j
      using nH mod_less_eq_dividend [of j "2 ^ (d + 1)"] by auto
    then show ?thesis by (simp only: t3(3))
  qed
  have "hash_inv xx t3 \<and> buckets t3 ! (hash mod 2 ^ d) = bpn \<and> buckets t3 ! newHash = ?npn
         \<and> hash mod 2 ^ d < length (buckets t3) \<and> newHash < length (buckets t3)
         \<and> table_entries t3 = table_entries ?t'"
    using split_step_inv [where xx = xx and t = ?t' and ?t3.0 = t3 and bpn = bpn and hash = hash,
        OF M(1) M(2) M(3) M(4)]
      t3(2) t3(3) t3(4) cb cn co
    unfolding M(6) d_def [symmetric] newHash_def [symmetric] es_def [symmetric]
      splitPrepare_maybeExtend
    by blast
  moreover have "\<forall>q. q \<noteq> bpn \<and> q \<noteq> ?npn \<longrightarrow> sContent (pager t3) q = sContent (pager t) q"
    using co by (simp add: M(6))
  ultimately show ?thesis
    using t3(1) t3(2) t3(5) bs3' cb cn M(5) by auto
qed

lemma splitOnce_no_frame:
  assumes "sFree (pager t) = 0" and "0 \<le> sPages (pager t)"
  shows "splitOnce xx t bpn newHash = Inl (PagerError NoAvailablePages)"
  using assms
  by (simp add: splitOnce_def Let_def NewHashBucket_def sGetPage_def splitPrepare_simps)

lemma sFree_putPage: "sFree (pager (putPage t)) = sFree (pager t) + 1"
  by (simp add: putPage_def sPut_def)

lemma Split_inv:
  "hash_inv xx t \<Longrightarrow> hash < length (buckets t) \<Longrightarrow> buckets t ! hash = bpn \<Longrightarrow>
   hash_inv xx (snd (Split xx t bpn hash))
   \<and> table_entries (snd (Split xx t bpn hash)) = table_entries t
   \<and> sFree (pager (snd (Split xx t bpn hash))) = sFree (pager t)
   \<and> (fst (Split xx t bpn hash) = None
       \<or> fst (Split xx t bpn hash) = Some (PagerError NoAvailablePages))"
proof (induction xx t bpn hash rule: Split.induct)
  case (1 xx t bpn hash)
  let ?d = "depth (sContent (pager t) bpn)"
  let ?oldHash = "hash mod 2 ^ ?d"
  let ?newHash = "?oldHash + 2 ^ ?d"
  note inv = "1.prems"(1) and h = "1.prems"(2) and b = "1.prems"(3)
  have pb: "0 \<le> bpn" "bpn < sPages (pager t)" using hash_invD(1,2) [OF inv h] b by simp_all
  show ?case
  proof (cases "sFree (pager t) = 0")
    case True
    have "splitOnce xx t bpn ?newHash = Inl (PagerError NoAvailablePages)"
      using True pb by (intro splitOnce_no_frame) simp_all
    then have "Split xx t bpn hash = (Some (PagerError NoAvailablePages), splitPrepare t bpn)"
      by (subst Split.simps) (simp add: Let_def)
    then show ?thesis
      using splitPrepare_inv [OF inv h b] by (simp add: splitPrepare_simps)
  next
    case False
    then have fr: "0 < sFree (pager t)" by simp
    from splitOnce_inv [OF inv h b fr]
    obtain t3 oldN newN where so: "splitOnce xx t bpn ?newHash = Inr (t3, sPages (pager t), oldN, newN)"
      and i3: "hash_inv xx t3" and o3: "buckets t3 ! ?oldHash = bpn"
      and n3: "buckets t3 ! ?newHash = sPages (pager t)"
      and ol: "?oldHash < length (buckets t3)" and nl: "?newHash < length (buckets t3)"
      and te: "table_entries t3 = table_entries t"
      and f3: "sFree (pager t3) = sFree (pager t) - 1"
      by blast
    show ?thesis
    proof (cases "BUCKETSIZE \<le> oldN")
      case True
      have eq: "Split xx t bpn hash =
          (fst (Split xx t3 bpn ?oldHash), putPage (snd (Split xx t3 bpn ?oldHash)))"
        using so True by (subst Split.simps) (simp add: Let_def split: prod.splits)
      from "1.IH"(1) [OF refl refl refl so refl refl refl True i3 ol o3]
      show ?thesis
        using fr unfolding eq
        by (simp add: hash_inv_putPage table_entries_putPage te f3 sFree_putPage)
    next
      case nold: False
      show ?thesis
      proof (cases "BUCKETSIZE \<le> newN")
        case True
        have eq: "Split xx t bpn hash =
            (fst (Split xx t3 (sPages (pager t)) ?newHash),
             putPage (snd (Split xx t3 (sPages (pager t)) ?newHash)))"
          using so True nold by (subst Split.simps) (simp add: Let_def split: prod.splits)
        from "1.IH"(2) [OF refl refl refl so refl refl refl nold True i3 nl n3]
        show ?thesis
          using fr unfolding eq
          by (simp add: hash_inv_putPage table_entries_putPage te f3 sFree_putPage)
      next
        case False
        have eq: "Split xx t bpn hash = (None, putPage t3)"
          using so False nold by (subst Split.simps) (simp add: Let_def)
        show ?thesis
          using fr unfolding eq
          by (simp add: hash_inv_putPage i3 table_entries_putPage te f3 sFree_putPage)
      qed
    qed
  qed
qed


subsection \<open>Find, Insert, Update and Delete\<close>

lemma findIndex_Some:
  "findIndex b key i n = Some j \<Longrightarrow>
     i \<le> j \<and> j < i + n \<and> getKeyAt b j = key \<and> (\<forall>l. i \<le> l \<and> l < j \<longrightarrow> getKeyAt b l \<noteq> key)"
proof (induction n arbitrary: i)
  case 0
  then show ?case by simp
next
  case (Suc n)
  show ?case
  proof (cases "getKeyAt b i = key")
    case True
    then show ?thesis using Suc.prems by auto
  next
    case False
    then have "findIndex b key (Suc i) n = Some j" using Suc.prems by simp
    from Suc.IH [OF this] have ih: "Suc i \<le> j" "j < Suc i + n" "getKeyAt b j = key"
      "\<And>l. Suc i \<le> l \<Longrightarrow> l < j \<Longrightarrow> getKeyAt b l \<noteq> key"
      by simp_all
    have "getKeyAt b l \<noteq> key" if "i \<le> l" "l < j" for l
    proof (cases "l = i")
      case True
      then show ?thesis using False by simp
    next
      case False
      then have "Suc i \<le> l" using that(1) by simp
      then show ?thesis using ih(4) that(2) by simp
    qed
    then show ?thesis using ih(1-3) by simp
  qed
qed

lemma findIndex_None:
  "findIndex b key i n = None \<longleftrightarrow> (\<forall>l. i \<le> l \<and> l < i + n \<longrightarrow> getKeyAt b l \<noteq> key)"
proof (induction n arbitrary: i)
  case 0
  then show ?case by simp
next
  case (Suc n)
  show ?case
  proof (cases "getKeyAt b i = key")
    case True
    then show ?thesis by auto
  next
    case False
    have "(\<forall>l. i \<le> l \<and> l < i + Suc n \<longrightarrow> getKeyAt b l \<noteq> key)
        \<longleftrightarrow> (\<forall>l. Suc i \<le> l \<and> l < Suc i + n \<longrightarrow> getKeyAt b l \<noteq> key)"
    proof
      assume a: "\<forall>l. i \<le> l \<and> l < i + Suc n \<longrightarrow> getKeyAt b l \<noteq> key"
      show "\<forall>l. Suc i \<le> l \<and> l < Suc i + n \<longrightarrow> getKeyAt b l \<noteq> key"
      proof (intro allI impI)
        fix l assume "Suc i \<le> l \<and> l < Suc i + n"
        then have "i \<le> l \<and> l < i + Suc n" by simp
        with a show "getKeyAt b l \<noteq> key" by blast
      qed
    next
      assume a: "\<forall>l. Suc i \<le> l \<and> l < Suc i + n \<longrightarrow> getKeyAt b l \<noteq> key"
      show "\<forall>l. i \<le> l \<and> l < i + Suc n \<longrightarrow> getKeyAt b l \<noteq> key"
      proof (intro allI impI)
        fix l assume l: "i \<le> l \<and> l < i + Suc n"
        show "getKeyAt b l \<noteq> key"
        proof (cases "l = i")
          case True
          then show ?thesis using False by simp
        next
          case False
          then have "Suc i \<le> l \<and> l < Suc i + n" using l by simp
          with a show ?thesis by blast
        qed
      qed
    qed
    then show ?thesis using False Suc.IH [of "Suc i"] by simp
  qed
qed

lemma bucket_Find_Some:
  assumes "bucket_Find b key = Some e"
  shows "e \<in> set (bucket_entries b) \<and> GetKey e = key"
proof -
  from assms obtain j where j: "findIndex b key 0 (numKeys b) = Some j" and e: "e = getCell b j"
    by (auto simp add: bucket_Find_def split: option.splits)
  from findIndex_Some [OF j] have "j < numKeys b" "getKeyAt b j = key" by simp_all
  then show ?thesis using e by (auto simp add: bucket_entries_iff getCell_def getKeyAt_def)
qed

lemma bucket_Find_None:
  assumes "bucket_Find b key = None"
  shows "\<forall>e\<in>set (bucket_entries b). GetKey e \<noteq> key"
proof -
  from assms have "findIndex b key 0 (numKeys b) = None"
    by (simp add: bucket_Find_def split: option.splits)
  then have "\<forall>l<numKeys b. GetKey (cells b l) \<noteq> key"
    by (simp add: findIndex_None getKeyAt_def getCell_def)
  then show ?thesis by (auto simp add: bucket_entries_def)
qed


text \<open>Replacing the content of the bucket of one slot by a bucket of the same depth.\<close>

lemma hash_inv_set_bucket:
  assumes inv: "hash_inv xx t" and h: "hash < length (buckets t)" and b: "buckets t ! hash = bpn"
    and d: "depth b' = depth (sContent (pager t) bpn)" and n: "numKeys b' \<le> BUCKETSIZE"
    and k: "\<And>c. c < numKeys b' \<Longrightarrow>
        buckets t ! Hasher xx (GetKey (cells b' c)) (gdepth t) = bpn"
    and g: "gdepth t' = gdepth t" and bs: "buckets t' = buckets t"
    and p: "sPages (pager t') = sPages (pager t)"
    and c: "sContent (pager t') = (sContent (pager t))(bpn := b')"
  shows "hash_inv xx t'"
    and "set (bucket_entries b') \<subseteq> table_entries t'"
    and "table_entries t' \<subseteq> table_entries t \<union> set (bucket_entries b')"
    and "table_entries t \<subseteq> table_entries t' \<union> set (bucket_entries (sContent (pager t) bpn))"
proof -
  have ba: "bucketAt t' i = (if buckets t ! i = bpn then b' else bucketAt t i)" for i
    by (simp add: bucketAt_def bs c)
  show "hash_inv xx t'"
    unfolding hash_inv_def
  proof (intro conjI allI impI)
    show "length (buckets t') = 2 ^ gdepth t'" using inv by (simp add: bs g hash_inv_length)
  next
    fix i assume "i < length (buckets t')"
    then have il: "i < length (buckets t)" by (simp add: bs)
    note I = hash_invD [OF inv il]
    have di: "depth (bucketAt t' i) = depth (bucketAt t i)"
      using d by (simp add: ba) (simp add: bucketAt_def)
    show "0 \<le> buckets t' ! i" using I(1) by (simp add: bs)
    show "buckets t' ! i < sPages (pager t')" using I(2) by (simp add: bs p)
    show "depth (bucketAt t' i) \<le> gdepth t'" using I(3) by (simp add: di g)
    show "numKeys (bucketAt t' i) \<le> BUCKETSIZE" using I(4) n by (simp add: ba)
    {
      fix j assume "j < length (buckets t')"
        and "j mod 2 ^ depth (bucketAt t' i) = i mod 2 ^ depth (bucketAt t' i)"
      then show "buckets t' ! j = buckets t' ! i" using I(5) [of j] by (simp add: bs di)
    }
    {
      fix c assume "c < numKeys (bucketAt t' i)"
      then show "buckets t' ! Hasher xx (GetKey (cells (bucketAt t' i) c)) (gdepth t') = buckets t' ! i"
        using I(6) [of c] k [of c] by (simp add: ba bs g split: if_splits)
    }
  qed
  show "set (bucket_entries b') \<subseteq> table_entries t'"
  proof
    fix e assume "e \<in> set (bucket_entries b')"
    then have "e \<in> set (bucket_entries (bucketAt t' hash))" using b by (simp add: ba)
    then show "e \<in> table_entries t'" using h unfolding table_entries_def bs by blast
  qed
  show "table_entries t' \<subseteq> table_entries t \<union> set (bucket_entries b')"
  proof
    fix e assume "e \<in> table_entries t'"
    then obtain i where "i < length (buckets t)" "e \<in> set (bucket_entries (bucketAt t' i))"
      by (auto simp add: table_entries_def bs)
    then show "e \<in> table_entries t \<union> set (bucket_entries b')"
      unfolding table_entries_def by (auto simp add: ba split: if_splits)
  qed
  show "table_entries t \<subseteq> table_entries t' \<union> set (bucket_entries (sContent (pager t) bpn))"
  proof
    fix e assume "e \<in> table_entries t"
    then obtain i where i: "i < length (buckets t)" "e \<in> set (bucket_entries (bucketAt t i))"
      by (auto simp add: table_entries_def)
    show "e \<in> table_entries t' \<union> set (bucket_entries (sContent (pager t) bpn))"
    proof (cases "buckets t ! i = bpn")
      case True
      then show ?thesis using i(2) by (simp add: bucketAt_def)
    next
      case False
      then have "e \<in> set (bucket_entries (bucketAt t' i))" using i(2) by (simp add: ba)
      then show ?thesis using i(1) unfolding table_entries_def bs by blast
    qed
  qed
qed

lemma GetBucket_ok:
  assumes inv: "hash_inv xx t" and fr: "0 < sFree (pager t)" and h: "hash < length (buckets t)"
  shows "GetBucket t hash =
     Inr (buckets t ! hash, t\<lparr>pager := (pager t)\<lparr>sFree := sFree (pager t) - 1\<rparr>\<rparr>)"
proof -
  have "0 \<le> buckets t ! hash" "buckets t ! hash < sPages (pager t)"
    using hash_invD(1,2) [OF inv h] by simp_all
  then show ?thesis using fr h by (simp add: GetBucket_def sGetPage_def)
qed

lemma putPage_pinned:
  assumes "0 < sFree (pager t)"
  shows "putPage (t\<lparr>pager := (pager t)\<lparr>sFree := sFree (pager t) - 1\<rparr>\<rparr>) = t"
  using assms by (simp add: putPage_def sPut_def)

lemma hash_Find_eq:
  assumes inv: "hash_inv xx t" and fr: "0 < sFree (pager t)"
  shows "hash_Find xx t key =
     ((case bucket_Find (bucketAt t (Hasher xx key (gdepth t))) key of
         None \<Rightarrow> Inl NotFound | Some e \<Rightarrow> Inr e), t)"
proof -
  have h: "Hasher xx key (gdepth t) < length (buckets t)"
    using hash_inv_length [OF inv] by (simp add: Hasher_less)
  show ?thesis
    using h putPage_pinned [OF fr]
    by (simp add: hash_Find_def GetBucket_ok [OF inv fr h] bucketAt_def split: option.splits)
qed

text \<open>The table inside Insert, after the entry was written to its bucket and before any split.\<close>

definition afterBucketInsert :: "(int \<Rightarrow> nat) \<Rightarrow> HashTable \<Rightarrow> int \<Rightarrow> int \<Rightarrow> HashTable" where
  "afterBucketInsert xx t key v =
     (let bpn = buckets t ! Hasher xx key (gdepth t);
          b = sContent (pager t) bpn
      in t\<lparr>pager := (pager t)
             \<lparr>sFree := sFree (pager t) - 1,
              sContent := (sContent (pager t))
                (bpn := updateNumKeys (modifyCell b (numKeys b) (key, v)) (numKeys b + 1))\<rparr>\<rparr>)"

lemma afterBucketInsert_props:
  assumes inv: "hash_inv xx t" and fr: "0 < sFree (pager t)"
    and nf: "numKeys (bucketAt t (Hasher xx key (gdepth t))) < BUCKETSIZE"
  shows "hash_inv xx (afterBucketInsert xx t key v)"
    and "table_entries (afterBucketInsert xx t key v) = insert (key, v) (table_entries t)"
    and "hash_Insert xx t key v =
      (if numKeys (bucketAt t (Hasher xx key (gdepth t))) + 1 < BUCKETSIZE
       then (None, putPage (afterBucketInsert xx t key v))
       else (fst (Split xx (afterBucketInsert xx t key v) (buckets t ! Hasher xx key (gdepth t))
                    (Hasher xx key (gdepth t))),
             putPage (snd (Split xx (afterBucketInsert xx t key v)
                    (buckets t ! Hasher xx key (gdepth t)) (Hasher xx key (gdepth t))))))"
proof -
  let ?hash = "Hasher xx key (gdepth t)"
  let ?bpn = "buckets t ! ?hash"
  let ?b = "sContent (pager t) ?bpn"
  let ?t1 = "t\<lparr>pager := (pager t)\<lparr>sFree := sFree (pager t) - 1\<rparr>\<rparr>"
  let ?b1 = "updateNumKeys (modifyCell ?b (numKeys ?b) (key, v)) (numKeys ?b + 1)"
  let ?t2 = "afterBucketInsert xx t key v"
  have t2: "?t2 = ?t1\<lparr>pager := sUpdate (pager ?t1) ?bpn ?b1\<rparr>"
    by (simp add: afterBucketInsert_def Let_def sUpdate_def)
  have h: "?hash < length (buckets t)"
    using hash_inv_length [OF inv] by (simp add: Hasher_less)
  have nf': "numKeys ?b < BUCKETSIZE" using nf by (simp add: bucketAt_def)
  have bi: "bucket_Insert ?b key v = Inr (BUCKETSIZE \<le> numKeys ?b + 1, ?b1)"
    using nf' by (simp add: bucket_Insert_def Let_def updateNumKeys_def)
  have ent: "bucket_entries ?b1 = bucket_entries ?b @ [(key, v)]"
    by (simp add: bucket_entries_def updateNumKeys_def modifyCell_def)
  have keys: "buckets t ! Hasher xx (GetKey (cells ?b1 c)) (gdepth t) = ?bpn"
    if "c < numKeys ?b1" for c
  proof (cases "c = numKeys ?b")
    case True
    then show ?thesis by (simp add: updateNumKeys_def modifyCell_def GetKey_def)
  next
    case False
    then have "c < numKeys ?b" using that by (simp add: updateNumKeys_def modifyCell_def)
    from hash_invD(6) [OF inv h, unfolded bucketAt_def, OF this] False
    show ?thesis by (simp add: updateNumKeys_def modifyCell_def)
  qed
  note SB = hash_inv_set_bucket [where t' = ?t2 and b' = ?b1, OF inv h refl _ _ keys]
  show i2: "hash_inv xx ?t2"
    by (rule SB(1)) (use nf' in \<open>simp_all add: t2 updateNumKeys_def modifyCell_def sUpdate_def\<close>)
  have "set (bucket_entries ?b1) \<subseteq> table_entries ?t2"
    by (rule SB(2)) (use nf' in \<open>simp_all add: t2 updateNumKeys_def modifyCell_def sUpdate_def\<close>)
  moreover have "table_entries ?t2 \<subseteq> table_entries t \<union> set (bucket_entries ?b1)"
    by (rule SB(3)) (use nf' in \<open>simp_all add: t2 updateNumKeys_def modifyCell_def sUpdate_def\<close>)
  moreover have "table_entries t \<subseteq> table_entries ?t2 \<union> set (bucket_entries ?b)"
    by (rule SB(4)) (use nf' in \<open>simp_all add: t2 updateNumKeys_def modifyCell_def sUpdate_def\<close>)
  moreover have "set (bucket_entries ?b) \<subseteq> table_entries t"
    using h unfolding table_entries_def bucketAt_def by blast
  ultimately show "table_entries ?t2 = insert (key, v) (table_entries t)"
    unfolding ent by auto
  have cont: "sContent (pager ?t1) ?bpn = ?b" by simp
  have "hash_Insert xx t key v =
      (if \<not> BUCKETSIZE \<le> numKeys ?b + 1 then (None, putPage ?t2)
       else (fst (Split xx ?t2 ?bpn ?hash), putPage (snd (Split xx ?t2 ?bpn ?hash))))"
    unfolding hash_Insert_def Let_def GetBucket_ok [OF inv fr h] t2
    by (simp only: sum.case prod.case cont bi split: prod.splits) simp
  then show "hash_Insert xx t key v =
      (if numKeys (bucketAt t ?hash) + 1 < BUCKETSIZE
       then (None, putPage ?t2)
       else (fst (Split xx ?t2 ?bpn ?hash), putPage (snd (Split xx ?t2 ?bpn ?hash))))"
    by (simp add: bucketAt_def not_le)
qed

lemma afterBucketInsert_fields:
  "gdepth (afterBucketInsert xx t key v) = gdepth t"
  "buckets (afterBucketInsert xx t key v) = buckets t"
  "sPages (pager (afterBucketInsert xx t key v)) = sPages (pager t)"
  "sFree (pager (afterBucketInsert xx t key v)) = sFree (pager t) - 1"
  by (simp_all add: afterBucketInsert_def Let_def)

lemma hash_Insert_inv:
  assumes inv: "hash_inv xx t" and fr: "0 < sFree (pager t)"
    and nf: "numKeys (bucketAt t (Hasher xx key (gdepth t))) < BUCKETSIZE"
  shows "hash_inv xx (snd (hash_Insert xx t key v))
       \<and> sFree (pager (snd (hash_Insert xx t key v))) = sFree (pager t)
       \<and> table_entries (snd (hash_Insert xx t key v)) = insert (key, v) (table_entries t)
       \<and> (fst (hash_Insert xx t key v) = None
           \<or> fst (hash_Insert xx t key v) = Some (PagerError NoAvailablePages))"
proof -
  let ?hash = "Hasher xx key (gdepth t)"
  let ?bpn = "buckets t ! ?hash"
  let ?t2 = "afterBucketInsert xx t key v"
  note P = afterBucketInsert_props [OF inv fr nf, of v]
  have h: "?hash < length (buckets t)"
    using hash_inv_length [OF inv] by (simp add: Hasher_less)
  have h2: "?hash < length (buckets ?t2)" "buckets ?t2 ! ?hash = ?bpn"
    using h by (simp_all add: afterBucketInsert_fields)
  have f2: "sFree (pager ?t2) = sFree (pager t) - 1" by (rule afterBucketInsert_fields)
  show ?thesis
  proof (cases "numKeys (bucketAt t ?hash) + 1 < BUCKETSIZE")
    case True
    then have e: "hash_Insert xx t key v = (None, putPage ?t2)" by (simp only: P(3)) simp
    have "hash_inv xx (putPage ?t2)" using P(1) by (rule hash_inv_putPage)
    moreover have "table_entries (putPage ?t2) = insert (key, v) (table_entries t)"
      unfolding table_entries_putPage P(2) by (rule refl)
    moreover have "sFree (pager (putPage ?t2)) = sFree (pager t)"
      unfolding sFree_putPage f2 using fr by simp
    ultimately show ?thesis unfolding e by simp
  next
    case False
    obtain r t4 where sp: "Split xx ?t2 ?bpn ?hash = (r, t4)" by (cases "Split xx ?t2 ?bpn ?hash")
    from False have e: "hash_Insert xx t key v = (r, putPage t4)"
      by (simp only: P(3) sp) simp
    from Split_inv [OF P(1) h2] have A: "hash_inv xx t4" "table_entries t4 = table_entries ?t2"
      "sFree (pager t4) = sFree (pager ?t2)" "r = None \<or> r = Some (PagerError NoAvailablePages)"
      unfolding sp by simp_all
    have "hash_inv xx (putPage t4)" using A(1) by (rule hash_inv_putPage)
    moreover have "table_entries (putPage t4) = insert (key, v) (table_entries t)"
      unfolding table_entries_putPage A(2) P(2) by (rule refl)
    moreover have "sFree (pager (putPage t4)) = sFree (pager t)"
      unfolding sFree_putPage A(3) f2 using fr by simp
    ultimately show ?thesis using A(4) unfolding e by simp
  qed
qed











lemma hash_Insert_Find:
  assumes inv: "hash_inv xx t" and fr: "0 < sFree (pager t)"
    and nf: "numKeys (bucketAt t (Hasher xx k (gdepth t))) < BUCKETSIZE"
    and nk: "\<forall>e\<in>table_entries t. GetKey e \<noteq> k"
  shows "fst (hash_Find xx (snd (hash_Insert xx t k v)) k) = Inr (k, v)"
proof -
  let ?t' = "snd (hash_Insert xx t k v)"
  from hash_Insert_inv [OF inv fr nf, of v]
  have inv': "hash_inv xx ?t'" and fr': "0 < sFree (pager ?t')"
    and te: "table_entries ?t' = insert (k, v) (table_entries t)"
    using fr by simp_all
  let ?s = "Hasher xx k (gdepth ?t')"
  have sl: "?s < length (buckets ?t')" using hash_inv_length [OF inv'] by (simp add: Hasher_less)
  from te have "(k, v) \<in> table_entries ?t'" by simp
  then obtain i where i: "i < length (buckets ?t')" "(k, v) \<in> set (bucket_entries (bucketAt ?t' i))"
    by (auto simp add: table_entries_def)
  then obtain c where c: "c < numKeys (bucketAt ?t' i)" "cells (bucketAt ?t' i) c = (k, v)"
    by (auto simp add: bucket_entries_iff)
  from hash_invD(6) [OF inv' i(1) c(1)] have "buckets ?t' ! ?s = buckets ?t' ! i"
    by (simp add: c(2) GetKey_def)
  then have same: "bucketAt ?t' ?s = bucketAt ?t' i" by (simp add: bucketAt_def)
  have mem: "(k, v) \<in> set (bucket_entries (bucketAt ?t' ?s))" using i(2) same by simp
  have "bucket_Find (bucketAt ?t' ?s) k = Some (k, v)"
  proof (cases "bucket_Find (bucketAt ?t' ?s) k")
    case None
    from bucket_Find_None [OF None] mem show ?thesis by (auto simp add: GetKey_def)
  next
    case (Some e)
    from bucket_Find_Some [OF Some] have e: "e \<in> set (bucket_entries (bucketAt ?t' ?s))" "GetKey e = k"
      by simp_all
    then have "e \<in> table_entries ?t'" using sl unfolding table_entries_def by blast
    then have "e = (k, v)" using te nk e(2) by auto
    then show ?thesis using Some by simp
  qed
  then show ?thesis by (simp add: hash_Find_eq [OF inv' fr'])
qed

subsection \<open>Split, step by step, and an example table\<close>


















end
